theory Spec2Isabelle
  imports Main
begin

section \<open>WatchMap: a Map whose keys can be watched\<close>

text \<open>
  The embedding follows \<^verbatim>\<open>src/index.js\<close>. A \<^verbatim>\<open>WatchMap\<close> is the native Map (the
  base store) together with two private maps, \<^verbatim>\<open>'previous'\<close> and \<^verbatim>\<open>'watchers'\<close>.
  A private map that \<^verbatim>\<open>_getPrivateMap\<close> has not created yet behaves as an empty one,
  so both are plain maps here.

  Callbacks are JavaScript functions that may call back into the map. What a callback
  does to the map is given as a script: the map calls it makes, in order, the same
  each time it runs. Running a script needs stack depth, which is the fuel of
  \<open>call\<close>; a callback that sets the key it watches recurses until the stack runs
  out.

  Keys are strings and values are primitive values, as in \<^verbatim>\<open>test/index.js\<close>; strict
  equality on them is equality.
\<close>

subsection \<open>Values\<close>

type_synonym key = string
type_synonym ident = string

datatype val = Undefined | Null | Bool bool | Num int | Str string

text \<open>JavaScript truthiness, as used by \<^verbatim>\<open>if (_callback.context)\<close> and \<^verbatim>\<open>options.always\<close>.\<close>

fun truthy :: "val \<Rightarrow> bool" where
  "truthy Undefined = False"
| "truthy Null = False"
| "truthy (Bool b) = b"
| "truthy (Num n) = (n \<noteq> 0)"
| "truthy (Str s) = (s \<noteq> [])"

text \<open>
  The \<^verbatim>\<open>WatchMapOptions\<close> object; a property that is not there is undefined. An omitted
  argument is \<open>None\<close>.
\<close>

record options =
  always :: val
  ocontext :: val

text \<open>The default parameter value \<^verbatim>\<open>options={always:false}\<close>.\<close>

definition default_options :: options where
  "default_options = \<lparr>always = Bool False, ocontext = Undefined\<rparr>"

definition resolve :: "options option \<Rightarrow> options" where
  "resolve opts = (case opts of None \<Rightarrow> default_options | Some r \<Rightarrow> r)"

subsection \<open>Callbacks\<close>

text \<open>
  A value passed as \<^verbatim>\<open>callback\<close> is either not callable, or a function: a label (to
  recognise it in the trace) and the map calls its body makes, in order. In
  \<open>AWatch\<close> and \<open>AOnce\<close> the last argument is the string that \<^verbatim>\<open>_randomString()\<close>
  returns in that call; \<open>AUnwatch key id\<close> calls the unwatch function that
  \<^verbatim>\<open>watch(key, ...)\<close> returned when it drew \<open>id\<close> (a callback called at registration
  gets its own as third argument). \<open>AClear\<close> is the inherited \<^verbatim>\<open>clear()\<close>.
\<close>

datatype callback = NotCallable val | Fn nat "action list"
and action =
    ASet key val
  | ADelete key
  | AClear
  | AGet key
  | ACount key
  | AWatch key callback "options option" ident
  | AOnce key callback "options option" ident
  | AUnwatch key ident

text \<open>
  The functions that reach \<^verbatim>\<open>watch\<close>: a caller's value, or the arrow function that
  \<^verbatim>\<open>once\<close> builds around the caller's callback. The arrow function closes over
  \<^verbatim>\<open>callback\<close>, \<^verbatim>\<open>options\<close> and the variable \<^verbatim>\<open>unwatch\<close> of that call of \<^verbatim>\<open>once\<close>;
  the variable is a cell of the state, named by a number.
\<close>

datatype fn = User callback | OnceWrapper callback "options option" nat

text \<open>The record \<^verbatim>\<open>{callback, id, context:options.context}\<close>.\<close>

record watcher =
  callback :: fn
  wid :: ident
  wcontext :: val

definition new_record :: "fn \<Rightarrow> ident \<Rightarrow> options option \<Rightarrow> watcher" where
  "new_record f i opts = \<lparr>callback = f, wid = i, wcontext = ocontext (resolve opts)\<rparr>"

text \<open>
  What a call binds \<open>this\<close> to: \<^verbatim>\<open>f.call(context, ...)\<close> binds the context, the method
  call \<^verbatim>\<open>_callback.callback(...)\<close> of \<^verbatim>\<open>_fire\<close> binds the watcher record, and a plain
  call \<^verbatim>\<open>callback(...)\<close> binds nothing.
\<close>

datatype receiver = NoReceiver | Context val | Record watcher

subsection \<open>Traces and results\<close>

text \<open>
  A trace lists what happened, in order.
  \<open>Call key id label this value oldValue children\<close>: the function labelled
  \<open>label\<close> was called for the watcher \<open>id\<close> of \<open>key\<close>, bound to \<open>this\<close>, with
  \<open>(value, oldValue)\<close>; \<open>children\<close> is what happened during the call.
  \<open>SetCalled key v children\<close>: a script called \<^verbatim>\<open>set(key, v)\<close>; \<open>children\<close> is
  what happened during its firing pass.
  \<open>Deleted key b\<close>: a script called \<^verbatim>\<open>delete(key)\<close>, which returned \<open>b\<close>.
  \<open>Cleared\<close>: a script called \<^verbatim>\<open>clear()\<close>.
  \<open>Got key v\<close>: a script read \<^verbatim>\<open>get(key)\<close> and saw \<open>v\<close>.
  \<open>Counted key n\<close>: a script called \<^verbatim>\<open>countWatchers(key)\<close>, which returned \<open>n\<close>.
  \<open>Registered key id\<close>: a script called \<^verbatim>\<open>watch\<close> or \<^verbatim>\<open>once\<close> on \<open>key\<close>, which
  drew \<open>id\<close>; a call made at registration follows.
  \<open>Unwatched key id\<close>: the unwatch function of \<open>(key, id)\<close> was called, by a script
  or by the arrow function of \<^verbatim>\<open>once\<close>.
\<close>

datatype event =
    Call key ident nat receiver val val "event list"
  | SetCalled key val "event list"
  | Deleted key bool
  | Cleared
  | Got key val
  | Counted key nat
  | Registered key ident
  | Unwatched key ident

datatype error = TypeError

datatype status = Ok | Threw error

record state =
  store :: "key \<rightharpoonup> val"
  previous :: "key \<rightharpoonup> val"
  watchers :: "key \<rightharpoonup> watcher list"
  cells :: "nat \<rightharpoonup> key \<times> ident"
  next_cell :: nat

text \<open>\<^verbatim>\<open>new WatchMap()\<close>.\<close>

definition empty_map :: state where
  "empty_map = \<lparr>store = Map.empty, previous = Map.empty, watchers = Map.empty,
     cells = Map.empty, next_cell = 0\<rparr>"

text \<open>
  A call ends normally or by throwing, in a state and with a trace; \<open>None\<close> is the
  stack running out.
\<close>

type_synonym result = "(status \<times> state \<times> event list) option"

definition ok :: "state \<Rightarrow> result" where
  "ok s = Some (Ok, s, [])"

definition throw :: "error \<Rightarrow> state \<Rightarrow> result" where
  "throw e s = Some (Threw e, s, [])"

text \<open>Sequencing: an exception of the first part skips the second.\<close>

definition and_then :: "result \<Rightarrow> (state \<Rightarrow> result) \<Rightarrow> result" where
  "and_then r f =
     (case r of
        None \<Rightarrow> None
      | Some (Threw e, s, t) \<Rightarrow> Some (Threw e, s, t)
      | Some (Ok, s, t) \<Rightarrow>
          (case f s of
             None \<Rightarrow> None
           | Some (st, s', t') \<Rightarrow> Some (st, s', t @ t')))"

text \<open>The events of a call become the children of its node.\<close>

definition nest :: "(event list \<Rightarrow> event) \<Rightarrow> result \<Rightarrow> result" where
  "nest node r =
     (case r of None \<Rightarrow> None | Some (st, s, t) \<Rightarrow> Some (st, s, [node t]))"

text \<open>An event, then what a call did.\<close>

definition after :: "event \<Rightarrow> result \<Rightarrow> result" where
  "after e r = (case r of None \<Rightarrow> None | Some (st, s, t) \<Rightarrow> Some (st, s, e # t))"

text \<open>
  How a function value is called: the function, the key and id it is called for (for
  the trace), \<open>this\<close>, \<open>value\<close>, \<open>oldValue\<close>, and the third argument (the unwatch
  function of a key and id, when one is passed).
\<close>

type_synonym invoke =
  "fn \<Rightarrow> key \<Rightarrow> ident \<Rightarrow> receiver \<Rightarrow> val \<Rightarrow> val \<Rightarrow> (key \<times> ident) option \<Rightarrow> state \<Rightarrow> result"

subsection \<open>The inherited Map methods\<close>

definition get_wm :: "state \<Rightarrow> key \<Rightarrow> val" where
  "get_wm s k = (case store s k of None \<Rightarrow> Undefined | Some v \<Rightarrow> v)"

definition has_wm :: "state \<Rightarrow> key \<Rightarrow> bool" where
  "has_wm s k = (store s k \<noteq> None)"

text \<open>\<^verbatim>\<open>_getPrivateMap(this, 'previous').get(key)\<close>.\<close>

definition previous_get :: "state \<Rightarrow> key \<Rightarrow> val" where
  "previous_get s k = (case previous s k of None \<Rightarrow> Undefined | Some v \<Rightarrow> v)"

subsection \<open>The methods of WatchMap\<close>

text \<open>
  \<^verbatim>\<open>Array.prototype.forEach\<close>. The loop visits the indices below the length the array
  had when it started. The module changes a watcher array in place only by \<^verbatim>\<open>push\<close>
  (in \<^verbatim>\<open>watch\<close>), and \<^verbatim>\<open>unwatch\<close> stores a filtered copy, so the loop walks the list
  of records the array held at the start.
\<close>

fun forEach :: "(watcher \<Rightarrow> state \<Rightarrow> result) \<Rightarrow> watcher list \<Rightarrow> state \<Rightarrow> result" where
  "forEach f [] s = ok s"
| "forEach f (w # ws) s = and_then (f w s) (forEach f ws)"

text \<open>
  \<^verbatim>\<open>if (context) callback.call(context, ...) else callback(...)\<close>: the calls that
  \<^verbatim>\<open>watch\<close> and the arrow function of \<^verbatim>\<open>once\<close> make.
\<close>

definition call_with ::
  "invoke \<Rightarrow> fn \<Rightarrow> key \<Rightarrow> ident \<Rightarrow> val \<Rightarrow> val \<Rightarrow> val \<Rightarrow> (key \<times> ident) option \<Rightarrow> state \<Rightarrow> result" where
  "call_with cl f k i ctx v old arg s =
     (if truthy ctx then cl f k i (Context ctx) v old arg s
      else cl f k i NoReceiver v old arg s)"

text \<open>
  The arrow function that \<^verbatim>\<open>_fire\<close> hands to \<^verbatim>\<open>forEach\<close>: either
  \<^verbatim>\<open>_callback.callback.call(_callback.context, value, oldValue)\<close>, or the method call
  \<^verbatim>\<open>_callback.callback(value, oldValue)\<close>, whose \<open>this\<close> is the record.
\<close>

definition fire_one :: "invoke \<Rightarrow> key \<Rightarrow> val \<Rightarrow> val \<Rightarrow> watcher \<Rightarrow> state \<Rightarrow> result" where
  "fire_one cl k v oldValue w s =
     (if truthy (wcontext w)
      then cl (callback w) k (wid w) (Context (wcontext w)) v oldValue None s
      else cl (callback w) k (wid w) (Record w) v oldValue None s)"

text \<open>\<^verbatim>\<open>_fire(self, key, value)\<close>.\<close>

definition fire :: "invoke \<Rightarrow> key \<Rightarrow> val \<Rightarrow> state \<Rightarrow> result" where
  "fire cl k v s =
     (let oldValue = get_wm s k in
      case watchers s k of
        None \<Rightarrow> ok s
      | Some ws \<Rightarrow> forEach (fire_one cl k v oldValue) ws s)"

text \<open>\<^verbatim>\<open>set(key, value)\<close>: record the previous value, fire, then \<^verbatim>\<open>super.set\<close>.\<close>

definition set_wm :: "invoke \<Rightarrow> key \<Rightarrow> val \<Rightarrow> state \<Rightarrow> result" where
  "set_wm cl k v s =
     and_then (fire cl k v (s\<lparr>previous := (previous s)(k \<mapsto> get_wm s k)\<rparr>))
       (\<lambda>s'. ok (s'\<lparr>store := (store s')(k \<mapsto> v)\<rparr>))"

text \<open>\<^verbatim>\<open>delete(key)\<close>: the result of \<^verbatim>\<open>super.delete\<close> and the new state.\<close>

definition delete_wm :: "key \<Rightarrow> state \<Rightarrow> bool \<times> state" where
  "delete_wm k s =
     (let s1 = (if previous s k \<noteq> None then s\<lparr>previous := (previous s)(k := None)\<rparr> else s)
      in (store s1 k \<noteq> None, s1\<lparr>store := (store s1)(k := None)\<rparr>))"

text \<open>The inherited \<^verbatim>\<open>clear()\<close>: the base store is emptied; nothing is fired.\<close>

definition clear_wm :: "state \<Rightarrow> state" where
  "clear_wm s = s\<lparr>store := Map.empty\<rparr>"

text \<open>The function \<^verbatim>\<open>unwatch\<close> that \<^verbatim>\<open>watch(key, ...)\<close> returns, for the id it drew.\<close>

definition unwatch :: "key \<times> ident \<Rightarrow> state \<Rightarrow> state" where
  "unwatch h s =
     (case watchers s (fst h) of
        None \<Rightarrow> s
      | Some ws \<Rightarrow>
          s\<lparr>watchers := (watchers s)(fst h \<mapsto> filter (\<lambda>c. wid c \<noteq> snd h) ws)\<rparr>)"

text \<open>
  \<^verbatim>\<open>watch(key, callback, options)\<close>, with \<open>i\<close> the result of \<^verbatim>\<open>_randomString()\<close>.
  \<open>register\<close> is its first part: the record is pushed on the array of the key, which
  is created when the key has none. Then, when \<^verbatim>\<open>options.always\<close> is truthy and the key
  is in the map, the callback is called with the unwatch function as third argument.
  \<^verbatim>\<open>watch\<close> returns the unwatch function of \<open>(key, i)\<close>.
\<close>

definition register :: "key \<Rightarrow> fn \<Rightarrow> options option \<Rightarrow> ident \<Rightarrow> state \<Rightarrow> state" where
  "register k f opts i s =
     (let ws = (case watchers s k of None \<Rightarrow> [] | Some ws \<Rightarrow> ws)
      in s\<lparr>watchers := (watchers s)(k \<mapsto> ws @ [new_record f i opts])\<rparr>)"

definition watch :: "invoke \<Rightarrow> key \<Rightarrow> fn \<Rightarrow> options option \<Rightarrow> ident \<Rightarrow> state \<Rightarrow> result" where
  "watch cl k f opts i s =
     (let s1 = register k f opts i s in
      if truthy (always (resolve opts)) \<and> has_wm s1 k
      then call_with cl f k i (ocontext (resolve opts)) (get_wm s1 k) (previous_get s1 k)
             (Some (k, i)) s1
      else ok s1)"

text \<open>\<^verbatim>\<open>let unwatch;\<close> in \<^verbatim>\<open>once\<close>: a new variable, undefined.\<close>

definition declare_unwatch :: "state \<Rightarrow> state" where
  "declare_unwatch s =
     s\<lparr>cells := (cells s)(next_cell s := None), next_cell := Suc (next_cell s)\<rparr>"

text \<open>
  \<^verbatim>\<open>once(key, callback, options)\<close>: the variable \<^verbatim>\<open>unwatch\<close> is assigned when
  \<^verbatim>\<open>this.watch\<close> has returned.
\<close>

definition once :: "invoke \<Rightarrow> key \<Rightarrow> callback \<Rightarrow> options option \<Rightarrow> ident \<Rightarrow> state \<Rightarrow> result" where
  "once cl k cb opts i s =
     (let c = next_cell s in
      and_then (watch cl k (OnceWrapper cb opts c) opts i (declare_unwatch s))
        (\<lambda>s'. ok (s'\<lparr>cells := (cells s')(c \<mapsto> (k, i))\<rparr>)))"

text \<open>\<^verbatim>\<open>countWatchers(key)\<close>.\<close>

definition countWatchers :: "state \<Rightarrow> key \<Rightarrow> nat" where
  "countWatchers s k = length (case watchers s k of None \<Rightarrow> [] | Some ws \<Rightarrow> ws)"

subsection \<open>Running callbacks\<close>

text \<open>One map call of a script, and a script.\<close>

definition do_action :: "invoke \<Rightarrow> action \<Rightarrow> state \<Rightarrow> result" where
  "do_action cl a s =
     (case a of
        ASet k v \<Rightarrow> nest (SetCalled k v) (set_wm cl k v s)
      | ADelete k \<Rightarrow> Some (Ok, snd (delete_wm k s), [Deleted k (fst (delete_wm k s))])
      | AClear \<Rightarrow> Some (Ok, clear_wm s, [Cleared])
      | AGet k \<Rightarrow> Some (Ok, s, [Got k (get_wm s k)])
      | ACount k \<Rightarrow> Some (Ok, s, [Counted k (countWatchers s k)])
      | AWatch k cb opts i \<Rightarrow> after (Registered k i) (watch cl k (User cb) opts i s)
      | AOnce k cb opts i \<Rightarrow> after (Registered k i) (once cl k cb opts i s)
      | AUnwatch k i \<Rightarrow> Some (Ok, unwatch (k, i) s, [Unwatched k i]))"

fun run_body :: "invoke \<Rightarrow> action list \<Rightarrow> state \<Rightarrow> result" where
  "run_body cl [] s = ok s"
| "run_body cl (a # as) s = and_then (do_action cl a s) (run_body cl as)"

text \<open>
  The last statement of the arrow function of \<^verbatim>\<open>once\<close>, \<^verbatim>\<open>(unwatch||_unwatch)()\<close>:
  the variable when it is assigned, else the third argument, else a TypeError.
\<close>

definition retire :: "nat \<Rightarrow> (key \<times> ident) option \<Rightarrow> state \<Rightarrow> result" where
  "retire c arg s =
     (case cells s c of
        Some h \<Rightarrow> Some (Ok, unwatch h s, [Unwatched (fst h) (snd h)])
      | None \<Rightarrow>
          (case arg of
             Some h \<Rightarrow> Some (Ok, unwatch h s, [Unwatched (fst h) (snd h)])
           | None \<Rightarrow> throw TypeError s))"

text \<open>
  Calling a function value with \<open>n\<close> stack frames left. A value that is not callable
  throws; a function runs its script one frame deeper; the arrow function of
  \<^verbatim>\<open>once\<close>, which has no \<open>this\<close> of its own, calls the callback (bound to
  \<^verbatim>\<open>options.context\<close> when that is truthy) and then retires itself.
\<close>

primrec call :: "nat \<Rightarrow> invoke" where
  "call 0 f k i this v old arg s = None"
| "call (Suc n) f k i this v old arg s =
     (case f of
        User (NotCallable x) \<Rightarrow> throw TypeError s
      | User (Fn l body) \<Rightarrow> nest (Call k i l this v old) (run_body (call n) body s)
      | OnceWrapper cb opts c \<Rightarrow>
          and_then (call_with (call n) (User cb) k i (ocontext (resolve opts)) v old None s)
            (retire c arg))"

text \<open>A program of top-level calls on a map, with stack depth \<open>n\<close>.\<close>

definition run :: "nat \<Rightarrow> action list \<Rightarrow> state \<Rightarrow> result" where
  "run n p s = run_body (call n) p s"

text \<open>How a result ended and what was observed, without the final state.\<close>

definition trace_of :: "result \<Rightarrow> (status \<times> event list) option" where
  "trace_of r = (case r of None \<Rightarrow> None | Some (st, s, t) \<Rightarrow> Some (st, t))"


section \<open>Observing states and traces\<close>

text \<open>The array of watcher records of a key; a key never watched has none.\<close>

definition watchers_of :: "state \<Rightarrow> key \<Rightarrow> watcher list" where
  "watchers_of s k = (case watchers s k of None \<Rightarrow> [] | Some ws \<Rightarrow> ws)"

text \<open>No record of \<open>k\<close> has the id \<open>i\<close>.\<close>

definition unregistered :: "key \<Rightarrow> ident \<Rightarrow> state \<Rightarrow> bool" where
  "unregistered k i s = (i \<notin> set (map wid (watchers_of s k)))"

text \<open>
  The calls a method made itself, in order: key, watcher id, \<open>value\<close>, \<open>oldValue\<close>.
  What the called functions did in turn is below the nodes and is not counted.
\<close>

fun top_call :: "event \<Rightarrow> (key \<times> ident \<times> val \<times> val) list" where
  "top_call (Call k i l this v old ch) = [(k, i, v, old)]"
| "top_call (SetCalled k v ch) = []"
| "top_call (Deleted k b) = []"
| "top_call Cleared = []"
| "top_call (Got k v) = []"
| "top_call (Counted k n) = []"
| "top_call (Registered k i) = []"
| "top_call (Unwatched k i) = []"

definition fired :: "event list \<Rightarrow> (key \<times> ident \<times> val \<times> val) list" where
  "fired t = concat (map top_call t)"

text \<open>Every call of the watcher \<open>i\<close> of \<open>k\<close> in a trace, at any depth: its arguments.\<close>

fun invocations :: "key \<Rightarrow> ident \<Rightarrow> event \<Rightarrow> (val \<times> val) list" where
  "invocations k i (Call k' i' l this v old ch) =
     (if k' = k \<and> i' = i then [(v, old)] else []) @ concat (map (invocations k i) ch)"
| "invocations k i (SetCalled k' v ch) = concat (map (invocations k i) ch)"
| "invocations k i (Deleted k' b) = []"
| "invocations k i Cleared = []"
| "invocations k i (Got k' v) = []"
| "invocations k i (Counted k' n) = []"
| "invocations k i (Registered k' i') = []"
| "invocations k i (Unwatched k' i') = []"

definition all_invocations :: "key \<Rightarrow> ident \<Rightarrow> event list \<Rightarrow> (val \<times> val) list" where
  "all_invocations k i t = concat (map (invocations k i) t)"

subsection \<open>Reads of a key, and writes before them\<close>

text \<open>Every value a script saw for \<^verbatim>\<open>get(k)\<close>, at any depth.\<close>

fun reads :: "key \<Rightarrow> event \<Rightarrow> val list" where
  "reads k (Call k' i l this v old ch) = concat (map (reads k) ch)"
| "reads k (SetCalled k' v ch) = concat (map (reads k) ch)"
| "reads k (Deleted k' b) = []"
| "reads k Cleared = []"
| "reads k (Got k' v) = (if k' = k then [v] else [])"
| "reads k (Counted k' n) = []"
| "reads k (Registered k' i) = []"
| "reads k (Unwatched k' i) = []"

definition all_reads :: "key \<Rightarrow> event list \<Rightarrow> val list" where
  "all_reads k t = concat (map (reads k) t)"

text \<open>A script called \<^verbatim>\<open>set\<close> or \<^verbatim>\<open>delete\<close> on \<open>k\<close>, or \<^verbatim>\<open>clear\<close>, at any depth.\<close>

fun touches :: "key \<Rightarrow> event \<Rightarrow> bool" where
  "touches k (Call k' i l this v old ch) = (\<exists>e\<in>set ch. touches k e)"
| "touches k (SetCalled k' v ch) = (k' = k \<or> (\<exists>e\<in>set ch. touches k e))"
| "touches k (Deleted k' b) = (k' = k)"
| "touches k Cleared = True"
| "touches k (Got k' v) = False"
| "touches k (Counted k' n) = False"
| "touches k (Registered k' i) = False"
| "touches k (Unwatched k' i) = False"

definition touched :: "key \<Rightarrow> event list \<Rightarrow> bool" where
  "touched k t = list_ex (touches k) t"

text \<open>
  The values seen for \<^verbatim>\<open>get(k)\<close> before the first call of \<^verbatim>\<open>set\<close> or \<^verbatim>\<open>delete\<close> on
  \<open>k\<close> or of \<^verbatim>\<open>clear\<close> in the trace.
\<close>

fun early_reads :: "key \<Rightarrow> event list \<Rightarrow> val list" where
  "early_reads k [] = []"
| "early_reads k (Call k' i l this v old ch # t) =
     early_reads k ch @ (if list_ex (touches k) ch then [] else early_reads k t)"
| "early_reads k (SetCalled k' v ch # t) =
     (if k' = k then []
      else early_reads k ch @ (if list_ex (touches k) ch then [] else early_reads k t))"
| "early_reads k (Deleted k' b # t) = (if k' = k then [] else early_reads k t)"
| "early_reads k (Cleared # t) = []"
| "early_reads k (Got k' v # t) = (if k' = k then [v] else []) @ early_reads k t"
| "early_reads k (Counted k' n # t) = early_reads k t"
| "early_reads k (Registered k' i # t) = early_reads k t"
| "early_reads k (Unwatched k' i # t) = early_reads k t"

text \<open>
  A way of calling functions under which a call leaves the entry of \<open>k\<close> alone unless a
  script writes it, and every read of \<open>k\<close> before the first write sees the entry the
  call started with.
\<close>

definition steady :: "key \<Rightarrow> invoke \<Rightarrow> bool" where
  "steady k cl =
     (\<forall>f j i this v old arg s st s' t.
        cl f j i this v old arg s = Some (st, s', t) \<longrightarrow>
        list_all (\<lambda>y. y = get_wm s k) (early_reads k t)
        \<and> (\<not> touched k t \<longrightarrow> store s' k = store s k))"

subsection \<open>Cancellations, and passes that start after them\<close>

text \<open>The unwatch function of \<open>(k, i)\<close> was called, at any depth.\<close>

fun cancels :: "key \<Rightarrow> ident \<Rightarrow> event \<Rightarrow> bool" where
  "cancels k i (Call k' i' l this v old ch) = (\<exists>e\<in>set ch. cancels k i e)"
| "cancels k i (SetCalled k' v ch) = (\<exists>e\<in>set ch. cancels k i e)"
| "cancels k i (Deleted k' b) = False"
| "cancels k i Cleared = False"
| "cancels k i (Got k' v) = False"
| "cancels k i (Counted k' n) = False"
| "cancels k i (Registered k' i') = False"
| "cancels k i (Unwatched k' i') = (k' = k \<and> i' = i)"

definition cancelled :: "key \<Rightarrow> ident \<Rightarrow> event list \<Rightarrow> bool" where
  "cancelled k i t = list_ex (cancels k i) t"

text \<open>
  \<^verbatim>\<open>_randomString()\<close> returns 32 random characters, and a watcher is cancelled by its
  id. \<open>redrawn k i c t\<close>: in the trace \<open>t\<close>, a call of \<^verbatim>\<open>watch\<close> or \<^verbatim>\<open>once\<close> on
  \<open>k\<close> drew the id \<open>i\<close> after the unwatch function of \<open>(k, i)\<close> had been called;
  \<open>c\<close> says whether it had been called before \<open>t\<close> begins.
\<close>

fun redrawn :: "key \<Rightarrow> ident \<Rightarrow> bool \<Rightarrow> event list \<Rightarrow> bool" where
  "redrawn k i c [] = False"
| "redrawn k i c (Call k' i' l this v old ch # t) =
     (redrawn k i c ch \<or> redrawn k i (c \<or> list_ex (cancels k i) ch) t)"
| "redrawn k i c (SetCalled k' v ch # t) =
     (redrawn k i c ch \<or> redrawn k i (c \<or> list_ex (cancels k i) ch) t)"
| "redrawn k i c (Deleted k' b # t) = redrawn k i c t"
| "redrawn k i c (Cleared # t) = redrawn k i c t"
| "redrawn k i c (Got k' v # t) = redrawn k i c t"
| "redrawn k i c (Counted k' n # t) = redrawn k i c t"
| "redrawn k i c (Registered k' i' # t) = ((c \<and> k' = k \<and> i' = i) \<or> redrawn k i c t)"
| "redrawn k i c (Unwatched k' i' # t) = redrawn k i (c \<or> (k' = k \<and> i' = i)) t"

text \<open>
  \<open>no_late_call k i p c t\<close>: in the trace \<open>t\<close>, no firing pass that started after the
  unwatch function of \<open>(k, i)\<close> had been called calls the watcher \<open>i\<close> of \<open>k\<close>.
  \<open>c\<close> says whether the unwatch function had been called before \<open>t\<close> begins; \<open>p\<close>
  says whether \<open>t\<close> is itself the list of calls of a pass that started after it had
  been called. A pass that a script starts is the list below a \<open>SetCalled\<close> node.
\<close>

fun no_late_call :: "key \<Rightarrow> ident \<Rightarrow> bool \<Rightarrow> bool \<Rightarrow> event list \<Rightarrow> bool" where
  "no_late_call k i p c [] = True"
| "no_late_call k i p c (Call k' i' l this v old ch # t) =
     (\<not> (p \<and> k' = k \<and> i' = i) \<and> no_late_call k i False c ch
      \<and> no_late_call k i p (c \<or> list_ex (cancels k i) ch) t)"
| "no_late_call k i p c (SetCalled k' v ch # t) =
     (no_late_call k i c c ch \<and> no_late_call k i p (c \<or> list_ex (cancels k i) ch) t)"
| "no_late_call k i p c (Deleted k' b # t) = no_late_call k i p c t"
| "no_late_call k i p c (Cleared # t) = no_late_call k i p c t"
| "no_late_call k i p c (Got k' v # t) = no_late_call k i p c t"
| "no_late_call k i p c (Counted k' n # t) = no_late_call k i p c t"
| "no_late_call k i p c (Registered k' i' # t) = no_late_call k i p c t"
| "no_late_call k i p c (Unwatched k' i' # t) =
     no_late_call k i p (c \<or> (k' = k \<and> i' = i)) t"

text \<open>
  A way of calling functions that respects cancellation: when the watcher is out of
  the registry as soon as it is cancelled and its id is not drawn again, no later pass
  calls it and it stays out.
\<close>

definition sound :: "key \<Rightarrow> ident \<Rightarrow> invoke \<Rightarrow> bool" where
  "sound k i cl =
     (\<forall>f j w this v old arg s st s' t p c.
        (c \<longrightarrow> unregistered k i s) \<longrightarrow> (p \<longrightarrow> (j, w) \<noteq> (k, i)) \<longrightarrow>
        cl f j w this v old arg s = Some (st, s', t) \<longrightarrow> \<not> redrawn k i c t \<longrightarrow>
        no_late_call k i p c t \<and> (c \<or> cancelled k i t \<longrightarrow> unregistered k i s'))"

subsection \<open>Callbacks that only read, and callbacks that call no function\<close>

fun is_read :: "action \<Rightarrow> bool" where
  "is_read (AGet k) = True"
| "is_read (ACount k) = True"
| "is_read (ASet k v) = False"
| "is_read (ADelete k) = False"
| "is_read AClear = False"
| "is_read (AWatch k cb opts i) = False"
| "is_read (AOnce k cb opts i) = False"
| "is_read (AUnwatch k i) = False"

definition only_reads :: "action list \<Rightarrow> bool" where
  "only_reads body = list_all is_read body"

text \<open>What a body of reads observes in a state.\<close>

fun observe :: "state \<Rightarrow> action \<Rightarrow> event list" where
  "observe s (AGet k) = [Got k (get_wm s k)]"
| "observe s (ACount k) = [Counted k (countWatchers s k)]"
| "observe s (ASet k v) = []"
| "observe s (ADelete k) = []"
| "observe s AClear = []"
| "observe s (AWatch k cb opts i) = []"
| "observe s (AOnce k cb opts i) = []"
| "observe s (AUnwatch k i) = []"

definition observe_all :: "state \<Rightarrow> action list \<Rightarrow> event list" where
  "observe_all s body = concat (map (observe s) body)"

text \<open>A watcher record whose function is a caller's function that only reads.\<close>

fun reader_fn :: "fn \<Rightarrow> bool" where
  "reader_fn (User (Fn l body)) = only_reads body"
| "reader_fn (User (NotCallable x)) = False"
| "reader_fn (OnceWrapper cb opts c) = False"

text \<open>Every watcher of a key is such a reader.\<close>

definition readers :: "state \<Rightarrow> key \<Rightarrow> bool" where
  "readers s k = list_all (\<lambda>w. reader_fn (callback w)) (watchers_of s k)"

text \<open>
  A map call that calls no function: a read, \<^verbatim>\<open>delete\<close>, \<^verbatim>\<open>clear\<close>, or an unwatch
  function.
\<close>

fun calls_nothing :: "action \<Rightarrow> bool" where
  "calls_nothing (AGet k) = True"
| "calls_nothing (ACount k) = True"
| "calls_nothing (ADelete k) = True"
| "calls_nothing AClear = True"
| "calls_nothing (AUnwatch k i) = True"
| "calls_nothing (ASet k v) = False"
| "calls_nothing (AWatch k cb opts i) = False"
| "calls_nothing (AOnce k cb opts i) = False"

fun canceller_fn :: "fn \<Rightarrow> bool" where
  "canceller_fn (User (Fn l body)) = list_all calls_nothing body"
| "canceller_fn (User (NotCallable x)) = False"
| "canceller_fn (OnceWrapper cb opts c) = False"

text \<open>Every watcher of a key is a caller's function whose script calls no function.\<close>

definition cancellers :: "state \<Rightarrow> key \<Rightarrow> bool" where
  "cancellers s k = list_all (\<lambda>w. canceller_fn (callback w)) (watchers_of s k)"

text \<open>\<open>this\<close> of a call made by \<open>call_with\<close>.\<close>

definition this_of :: "val \<Rightarrow> receiver" where
  "this_of ctx = (if truthy ctx then Context ctx else NoReceiver)"

text \<open>\<open>this\<close> of a call made by \<open>fire_one\<close>.\<close>

definition this_in_pass :: "watcher \<Rightarrow> receiver" where
  "this_in_pass w = (if truthy (wcontext w) then Context (wcontext w) else Record w)"

subsection \<open>Watchers that cannot be called\<close>

text \<open>
  A value that is not callable, registered by \<^verbatim>\<open>watch\<close>, or wrapped in the arrow
  function of \<^verbatim>\<open>once\<close>.
\<close>

fun dud :: "fn \<Rightarrow> bool" where
  "dud (User (NotCallable x)) = True"
| "dud (User (Fn l body)) = False"
| "dud (OnceWrapper (NotCallable x) opts c) = True"
| "dud (OnceWrapper (Fn l body) opts c) = False"

definition has_dud :: "state \<Rightarrow> key \<Rightarrow> bool" where
  "has_dud s k = list_ex (\<lambda>w. dud (callback w)) (watchers_of s k)"

subsection \<open>Example states\<close>

text \<open>The key \<^verbatim>\<open>'k'\<close> holds 1 and has one watcher, which reads the key.\<close>

definition watched_state :: state where
  "watched_state =
     \<lparr>store = [''k'' \<mapsto> Num 1], previous = [''k'' \<mapsto> Undefined],
      watchers = [''k'' \<mapsto> [new_record (User (Fn 0 [AGet ''k''])) ''a'' None]],
      cells = Map.empty, next_cell = 0\<rparr>"

text \<open>
  The state after \<^verbatim>\<open>set('k', 1); set('k', 2)\<close> on a new map: the key holds 2 and its
  entry in the \<^verbatim>\<open>'previous'\<close> map is 1.
\<close>

definition twice_set_state :: state where
  "twice_set_state =
     \<lparr>store = [''k'' \<mapsto> Num 2], previous = [''k'' \<mapsto> Num 1],
      watchers = Map.empty, cells = Map.empty, next_cell = 0\<rparr>"

text \<open>
  The key \<^verbatim>\<open>'k'\<close> is absent and has three watchers; the first one cancels the third
  when it is called.
\<close>

definition cancelling_state :: state where
  "cancelling_state =
     \<lparr>store = Map.empty, previous = Map.empty,
      watchers = [''k'' \<mapsto>
        [new_record (User (Fn 1 [AUnwatch ''k'' ''c''])) ''a'' None,
         new_record (User (Fn 2 [])) ''b'' None,
         new_record (User (Fn 3 [])) ''c'' None]],
      cells = Map.empty, next_cell = 0\<rparr>"

text \<open>
  The state after \<^verbatim>\<open>once('k', 5)\<close> on the first state: the number 5 is wrapped in the
  arrow function of \<^verbatim>\<open>once\<close> and registered; the variable \<^verbatim>\<open>unwatch\<close> of that call is
  cell 0.
\<close>

definition once_dud_state :: state where
  "once_dud_state =
     \<lparr>store = [''k'' \<mapsto> Num 1], previous = [''k'' \<mapsto> Undefined],
      watchers = [''k'' \<mapsto>
        [new_record (User (Fn 0 [AGet ''k''])) ''a'' None,
         new_record (OnceWrapper (NotCallable (Num 5)) None 0) ''b'' None]],
      cells = [0 \<mapsto> (''k'', ''b'')], next_cell = 1\<rparr>"
section \<open>Evaluating the code on scripts\<close>

text \<open>The definitions a concrete run unfolds.\<close>

lemmas wm_defs =
  run_def trace_of_def do_action_def set_wm_def fire_def fire_one_def call_with_def watch_def
  once_def declare_unwatch_def register_def
  unwatch_def delete_wm_def clear_wm_def new_record_def and_then_def nest_def after_def ok_def throw_def retire_def get_wm_def
  has_wm_def previous_get_def resolve_def default_options_def empty_map_def countWatchers_def

section \<open>Basic facts\<close>

lemma fired_simps [simp]:
  "fired [] = []"
  "fired (e # t) = top_call e @ fired t"
  "fired (t @ u) = fired t @ fired u"
  by (simp_all add: fired_def)

lemma all_invocations_simps [simp]:
  "all_invocations k i [] = []"
  "all_invocations k i (e # t) = invocations k i e @ all_invocations k i t"
  "all_invocations k i (t @ u) = all_invocations k i t @ all_invocations k i u"
  by (simp_all add: all_invocations_def)

lemma invocations_nodes [simp]:
  "invocations k i (Call k' i' l this v old ch) =
     (if k' = k \<and> i' = i then [(v, old)] else []) @ all_invocations k i ch"
  "invocations k i (SetCalled k' v ch) = all_invocations k i ch"
  by (simp_all add: all_invocations_def)

declare invocations.simps(1,2) [simp del]

lemma all_reads_simps [simp]:
  "all_reads k [] = []"
  "all_reads k (e # t) = reads k e @ all_reads k t"
  "all_reads k (t @ u) = all_reads k t @ all_reads k u"
  by (simp_all add: all_reads_def)

lemma reads_nodes [simp]:
  "reads k (Call k' i l this v old ch) = all_reads k ch"
  "reads k (SetCalled k' v ch) = all_reads k ch"
  by (simp_all add: all_reads_def)

declare reads.simps(1,2) [simp del]

lemma touched_simps [simp]:
  "touched k [] = False"
  "touched k (e # t) = (touches k e \<or> touched k t)"
  "touched k (t @ u) = (touched k t \<or> touched k u)"
  by (auto simp: touched_def list_ex_iff)

lemma touches_nodes [simp]:
  "touches k (Call k' i l this v old ch) = touched k ch"
  "touches k (SetCalled k' v ch) = (k' = k \<or> touched k ch)"
  by (simp_all add: touched_def list_ex_iff)

declare touches.simps(1,2) [simp del]

lemma cancelled_simps [simp]:
  "cancelled k i [] = False"
  "cancelled k i (e # t) = (cancels k i e \<or> cancelled k i t)"
  "cancelled k i (t @ u) = (cancelled k i t \<or> cancelled k i u)"
  by (auto simp: cancelled_def list_ex_iff)

lemma cancels_nodes [simp]:
  "cancels k i (Call k' i' l this v old ch) = cancelled k i ch"
  "cancels k i (SetCalled k' v ch) = cancelled k i ch"
  by (simp_all add: cancelled_def list_ex_iff)

declare cancels.simps(1,2) [simp del]

lemma early_reads_nodes [simp]:
  "early_reads k (Call k' i l this v old ch # t) =
     early_reads k ch @ (if touched k ch then [] else early_reads k t)"
  "early_reads k (SetCalled k' v ch # t) =
     (if k' = k then []
      else early_reads k ch @ (if touched k ch then [] else early_reads k t))"
  by (simp_all add: touched_def)

declare early_reads.simps(2,3) [simp del]

lemma redrawn_nodes [simp]:
  "redrawn k i c (Call k' i' l this v old ch # t) =
     (redrawn k i c ch \<or> redrawn k i (c \<or> cancelled k i ch) t)"
  "redrawn k i c (SetCalled k' v ch # t) =
     (redrawn k i c ch \<or> redrawn k i (c \<or> cancelled k i ch) t)"
  by (simp_all add: cancelled_def)

declare redrawn.simps(2,3) [simp del]

lemma no_late_call_nodes [simp]:
  "no_late_call k i p c (Call k' i' l this v old ch # t) =
     (\<not> (p \<and> k' = k \<and> i' = i) \<and> no_late_call k i False c ch
      \<and> no_late_call k i p (c \<or> cancelled k i ch) t)"
  "no_late_call k i p c (SetCalled k' v ch # t) =
     (no_late_call k i c c ch \<and> no_late_call k i p (c \<or> cancelled k i ch) t)"
  by (simp_all add: cancelled_def)

declare no_late_call.simps(2,3) [simp del]

lemma list_ex_touches [simp]: "list_ex (touches k) t = touched k t"
  by (simp add: touched_def)

lemma list_ex_cancels [simp]: "list_ex (cancels k i) t = cancelled k i t"
  by (simp add: cancelled_def)

lemma early_reads_append:
  "early_reads k (t @ u) = early_reads k t @ (if touched k t then [] else early_reads k u)"
  by (induction k t rule: early_reads.induct) auto

lemma early_reads_all: "\<not> touched k t \<Longrightarrow> early_reads k t = all_reads k t"
  by (induction k t rule: early_reads.induct) auto

lemma redrawn_append:
  "redrawn k i c (t @ u) = (redrawn k i c t \<or> redrawn k i (c \<or> cancelled k i t) u)"
  by (induction k i c t rule: redrawn.induct) (auto simp: disj_assoc)

lemma no_late_call_append:
  "no_late_call k i p c (t @ u) =
     (no_late_call k i p c t \<and> no_late_call k i p (c \<or> cancelled k i t) u)"
  by (induction k i p c t rule: no_late_call.induct) (auto simp: disj_assoc)

subsection \<open>Results of the sequencing operators\<close>

lemma and_then_Some:
  "and_then r f = Some (st, s', t) \<longleftrightarrow>
     (\<exists>e. r = Some (Threw e, s', t) \<and> st = Threw e) \<or>
     (\<exists>s1 t1 t2. r = Some (Ok, s1, t1) \<and> f s1 = Some (st, s', t2) \<and> t = t1 @ t2)"
  by (auto simp: and_then_def split: option.splits status.splits prod.splits)

lemma and_then_Ok:
  "and_then r f = Some (Ok, s', t) \<longleftrightarrow>
     (\<exists>s1 t1 t2. r = Some (Ok, s1, t1) \<and> f s1 = Some (Ok, s', t2) \<and> t = t1 @ t2)"
  by (auto simp: and_then_Some)

lemma nest_Some:
  "nest node r = Some (st, s', t) \<longleftrightarrow> (\<exists>ch. r = Some (st, s', ch) \<and> t = [node ch])"
  by (auto simp: nest_def split: option.splits)

lemma after_Some:
  "after e r = Some (st, s', t) \<longleftrightarrow> (\<exists>u. r = Some (st, s', u) \<and> t = e # u)"
  by (auto simp: after_def split: option.splits)

lemma retire_Some:
  "retire c arg s = Some (st, s', t) \<longleftrightarrow>
     (\<exists>h. (cells s c = Some h \<or> cells s c = None \<and> arg = Some h)
        \<and> st = Ok \<and> s' = unwatch h s \<and> t = [Unwatched (fst h) (snd h)])
     \<or> (cells s c = None \<and> arg = None \<and> st = Threw TypeError \<and> s' = s \<and> t = [])"
  by (auto simp: retire_def throw_def split: option.splits)

lemma retire_fired: "retire c arg s = Some (st, s', t) \<Longrightarrow> fired t = []"
  by (auto simp: retire_Some)

lemma call_with_eq: "call_with cl f k i ctx v old arg s = cl f k i (this_of ctx) v old arg s"
  by (simp add: call_with_def this_of_def)

lemma fire_one_eq:
  "fire_one cl k v old w s = cl (callback w) k (wid w) (this_in_pass w) v old None s"
  by (simp add: fire_one_def this_in_pass_def)

lemma set_wm_Some:
  "set_wm cl j v s = Some (st, s', t) \<longleftrightarrow>
     (\<exists>e. fire cl j v (s\<lparr>previous := (previous s)(j \<mapsto> get_wm s j)\<rparr>) = Some (Threw e, s', t)
          \<and> st = Threw e) \<or>
     (\<exists>s1. fire cl j v (s\<lparr>previous := (previous s)(j \<mapsto> get_wm s j)\<rparr>) = Some (Ok, s1, t)
          \<and> st = Ok \<and> s' = s1\<lparr>store := (store s1)(j \<mapsto> v)\<rparr>)"
  unfolding set_wm_def and_then_Some ok_def
  by (simp add: eq_commute conj_commute)

lemma once_Some:
  "once cl j cb opts i s = Some (st, s', t) \<longleftrightarrow>
     (\<exists>e. watch cl j (OnceWrapper cb opts (next_cell s)) opts i (declare_unwatch s)
            = Some (Threw e, s', t) \<and> st = Threw e) \<or>
     (\<exists>s1. watch cl j (OnceWrapper cb opts (next_cell s)) opts i (declare_unwatch s)
            = Some (Ok, s1, t) \<and> st = Ok \<and> s' = s1\<lparr>cells := (cells s1)(next_cell s \<mapsto> (j, i))\<rparr>)"
  unfolding once_def Let_def and_then_Some ok_def
  by (simp add: eq_commute conj_commute)

lemma trace_of_Some: "trace_of r = Some (st, t) \<longleftrightarrow> (\<exists>s. r = Some (st, s, t))"
  by (auto simp: trace_of_def split: option.splits)

subsection \<open>The watcher arrays after each method\<close>

lemma watchers_of_update [simp]:
  "watchers_of (s\<lparr>previous := p\<rparr>) = watchers_of s"
  "watchers_of (s\<lparr>store := m\<rparr>) = watchers_of s"
  "watchers_of (s\<lparr>cells := c\<rparr>) = watchers_of s"
  "watchers_of (s\<lparr>next_cell := n\<rparr>) = watchers_of s"
  "watchers_of (declare_unwatch s) = watchers_of s"
  "watchers_of (clear_wm s) = watchers_of s"
  by (simp_all add: watchers_of_def declare_unwatch_def clear_wm_def fun_eq_iff)

lemma watchers_of_unwatch:
  "watchers_of (unwatch h s) j =
     (if j = fst h then filter (\<lambda>c. wid c \<noteq> snd h) (watchers_of s j) else watchers_of s j)"
  by (simp add: watchers_of_def unwatch_def split: option.splits)

lemma watchers_of_register:
  "watchers_of (register j f opts i s) j' =
     (if j' = j then watchers_of s j @ [new_record f i opts] else watchers_of s j')"
  by (simp add: watchers_of_def register_def Let_def split: option.splits)

lemma new_record_sel [simp]:
  "callback (new_record f i opts) = f" "wid (new_record f i opts) = i"
  "wcontext (new_record f i opts) = ocontext (resolve opts)"
  by (simp_all add: new_record_def)

lemma watchers_delete: "watchers (snd (delete_wm j s)) = watchers s"
  by (simp add: delete_wm_def Let_def)

lemma watchers_of_delete: "watchers_of (snd (delete_wm j s)) = watchers_of s"
  by (simp add: watchers_of_def watchers_delete fun_eq_iff)

lemma countWatchers_length: "countWatchers s k = length (watchers_of s k)"
  by (simp add: countWatchers_def watchers_of_def)

lemma store_register [simp]: "store (register j f opts i s) = store s"
  by (simp add: register_def Let_def)

lemma store_declare_unwatch [simp]:
  "store (declare_unwatch s) = store s" "previous (declare_unwatch s) = previous s"
  by (simp_all add: declare_unwatch_def)

lemma store_unwatch [simp]: "store (unwatch h s) = store s"
  by (simp add: unwatch_def split: option.splits)

lemma get_wm_register [simp]: "get_wm (register j f opts i s) = get_wm s"
  by (simp add: get_wm_def fun_eq_iff)

lemma get_wm_unwatch [simp]: "get_wm (unwatch h s) = get_wm s"
  by (simp add: get_wm_def fun_eq_iff)

lemma has_wm_register [simp]: "has_wm (register j f opts i s) = has_wm s"
  by (simp add: has_wm_def fun_eq_iff)

lemma previous_get_register [simp]: "previous_get (register j f opts i s) = previous_get s"
  by (simp add: previous_get_def register_def Let_def fun_eq_iff)

lemma readers_iff: "readers s k \<longleftrightarrow> (\<forall>w\<in>set (watchers_of s k). reader_fn (callback w))"
  by (simp add: readers_def list_all_iff)

lemma cancellers_iff:
  "cancellers s k \<longleftrightarrow> (\<forall>w\<in>set (watchers_of s k). canceller_fn (callback w))"
  by (simp add: cancellers_def list_all_iff)

subsection \<open>The calls a firing pass makes itself\<close>

lemma call_user_fired:
  "call n (User cb) k i this v old arg s = Some (Ok, s', t) \<Longrightarrow> fired t = [(k, i, v, old)]"
  by (cases n; cases cb) (auto simp: throw_def nest_Some)

lemma call_fired:
  assumes "call n f k i this v old arg s = Some (Ok, s', t)"
  shows "fired t = [(k, i, v, old)]"
proof (cases n)
  case 0
  with assms show ?thesis by simp
next
  case (Suc m)
  show ?thesis
  proof (cases f)
    case (User cb)
    with assms show ?thesis by (simp only: call_user_fired)
  next
    case (OnceWrapper cb opts c)
    with assms Suc show ?thesis
      by (auto simp: and_then_Ok call_with_eq dest!: retire_fired call_user_fired)
  qed
qed

lemma forEach_fired:
  "forEach (fire_one (call n) k v old) ws s = Some (Ok, s', t) \<Longrightarrow>
   fired t = map (\<lambda>w. (k, wid w, v, old)) ws"
proof (induction ws arbitrary: s t)
  case Nil
  then show ?case by (simp add: ok_def)
next
  case (Cons w ws)
  then show ?case
    by (auto simp: and_then_Ok fire_one_eq dest!: call_fired)
qed

lemma fire_fired:
  "fire (call n) k v s = Some (Ok, s', t) \<Longrightarrow>
   fired t = map (\<lambda>w. (k, wid w, v, get_wm s k)) (watchers_of s k)"
  by (auto simp: fire_def watchers_of_def Let_def ok_def dest: forEach_fired split: option.splits)

lemma set_wm_fired:
  "set_wm (call n) k v s = Some (Ok, s', t) \<Longrightarrow>
   fired t = map (\<lambda>w. (k, wid w, v, get_wm s k)) (watchers_of s k)"
  by (auto simp: set_wm_Some get_wm_def dest!: fire_fired)

section \<open>A cancelled watcher is called by no later pass\<close>

lemma soundD:
  "sound k i cl \<Longrightarrow> (c \<longrightarrow> unregistered k i s) \<Longrightarrow> (p \<longrightarrow> (j, w) \<noteq> (k, i)) \<Longrightarrow>
   cl f j w this v old arg s = Some (st, s', t) \<Longrightarrow> \<not> redrawn k i c t \<Longrightarrow>
   no_late_call k i p c t \<and> (c \<or> cancelled k i t \<longrightarrow> unregistered k i s')"
  unfolding sound_def by blast

lemma unregistered_update [simp]:
  "unregistered k i (s\<lparr>previous := p\<rparr>) = unregistered k i s"
  "unregistered k i (s\<lparr>store := m\<rparr>) = unregistered k i s"
  "unregistered k i (s\<lparr>cells := c\<rparr>) = unregistered k i s"
  "unregistered k i (s\<lparr>next_cell := n\<rparr>) = unregistered k i s"
  "unregistered k i (declare_unwatch s) = unregistered k i s"
  "unregistered k i (clear_wm s) = unregistered k i s"
  by (simp_all add: unregistered_def)

lemma unregistered_unwatch:
  "unregistered k i (unwatch h s) = (h = (k, i) \<or> unregistered k i s)"
  by (cases h) (auto simp: unregistered_def watchers_of_unwatch)

lemma unregistered_register:
  "unregistered k i (register j f opts i' s) = (unregistered k i s \<and> (j, i') \<noteq> (k, i))"
  by (auto simp: unregistered_def watchers_of_register)

lemma unregistered_delete [simp]: "unregistered k i (snd (delete_wm j s)) = unregistered k i s"
  by (simp add: unregistered_def watchers_of_delete)

lemma forEach_sound:
  assumes g: "sound k i cl"
  shows "(c \<longrightarrow> unregistered k i s) \<Longrightarrow> (p \<longrightarrow> (\<forall>w\<in>set ws. (j, wid w) \<noteq> (k, i))) \<Longrightarrow>
    forEach (fire_one cl j v old) ws s = Some (st, s', t) \<Longrightarrow> \<not> redrawn k i c t \<Longrightarrow>
    no_late_call k i p c t \<and> (c \<or> cancelled k i t \<longrightarrow> unregistered k i s')"
proof (induction ws arbitrary: s t c)
  case Nil
  then show ?case by (auto simp: ok_def)
next
  case (Cons w ws)
  let ?f = "fire_one cl j v old"
  from Cons.prems(2) have pw: "p \<longrightarrow> (j, wid w) \<noteq> (k, i)" by simp
  have one: "no_late_call k i p c t1 \<and> (c \<or> cancelled k i t1 \<longrightarrow> unregistered k i s1)"
    if "?f w s = Some (st1, s1, t1)" and "\<not> redrawn k i c t1" for st1 s1 t1
  proof -
    from that(1) have "cl (callback w) j (wid w) (this_in_pass w) v old None s = Some (st1, s1, t1)"
      by (simp add: fire_one_eq)
    from soundD [OF g Cons.prems(1) pw this that(2)] show ?thesis .
  qed
  from Cons.prems(3) have
    "(\<exists>e. ?f w s = Some (Threw e, s', t)) \<or>
     (\<exists>s1 t1 t2. ?f w s = Some (Ok, s1, t1) \<and> forEach ?f ws s1 = Some (st, s', t2) \<and> t = t1 @ t2)"
    by (auto simp: and_then_Some)
  then show ?case
  proof (elim disjE exE conjE)
    fix e assume "?f w s = Some (Threw e, s', t)"
    from one [OF this Cons.prems(4)] show ?thesis .
  next
    fix s1 t1 t2
    assume r: "?f w s = Some (Ok, s1, t1)" and r2: "forEach ?f ws s1 = Some (st, s', t2)"
      and t: "t = t1 @ t2"
    from Cons.prems(4) t have n1: "\<not> redrawn k i c t1"
      and n2: "\<not> redrawn k i (c \<or> cancelled k i t1) t2"
      by (simp_all add: redrawn_append)
    from one [OF r n1]
    have l1: "no_late_call k i p c t1" and u1: "c \<or> cancelled k i t1 \<longrightarrow> unregistered k i s1"
      by simp_all
    from Cons.prems(2) have "p \<longrightarrow> (\<forall>w\<in>set ws. (j, wid w) \<noteq> (k, i))" by simp
    from Cons.IH [OF u1 this r2 n2] l1 t show ?thesis
      by (auto simp: no_late_call_append)
  qed
qed

lemma fire_sound:
  assumes g: "sound k i cl" and s: "c \<longrightarrow> unregistered k i s"
    and r: "fire cl j v s = Some (st, s', t)" and n: "\<not> redrawn k i c t"
  shows "no_late_call k i c c t \<and> (c \<or> cancelled k i t \<longrightarrow> unregistered k i s')"
proof (cases "watchers s j")
  case None
  with r s show ?thesis by (auto simp: fire_def ok_def)
next
  case (Some ws)
  then have ws: "watchers_of s j = ws" by (simp add: watchers_of_def)
  from s ws have ids: "c \<longrightarrow> (\<forall>w\<in>set ws. (j, wid w) \<noteq> (k, i))"
    by (auto simp: unregistered_def)
  from r Some forEach_sound [OF g s ids _ n] show ?thesis
    by (simp add: fire_def Let_def)
qed

lemma set_wm_sound:
  assumes g: "sound k i cl" and s: "c \<longrightarrow> unregistered k i s"
    and r: "set_wm cl j v s = Some (st, s', t)" and n: "\<not> redrawn k i c t"
  shows "no_late_call k i c c t \<and> (c \<or> cancelled k i t \<longrightarrow> unregistered k i s')"
proof -
  let ?s0 = "s\<lparr>previous := (previous s)(j \<mapsto> get_wm s j)\<rparr>"
  have s0: "c \<longrightarrow> unregistered k i ?s0" using s by simp
  from r have
    "(\<exists>e. fire cl j v ?s0 = Some (Threw e, s', t)) \<or>
     (\<exists>s1. fire cl j v ?s0 = Some (Ok, s1, t) \<and> s' = s1\<lparr>store := (store s1)(j \<mapsto> v)\<rparr>)"
    unfolding set_wm_Some by blast
  then show ?thesis
  proof (elim disjE exE conjE)
    fix e assume "fire cl j v ?s0 = Some (Threw e, s', t)"
    from fire_sound [OF g s0 this n] show ?thesis .
  next
    fix s1 assume f: "fire cl j v ?s0 = Some (Ok, s1, t)"
      and s': "s' = s1\<lparr>store := (store s1)(j \<mapsto> v)\<rparr>"
    from fire_sound [OF g s0 f n] s' show ?thesis by simp
  qed
qed

lemma watch_sound:
  assumes g: "sound k i cl" and s: "c \<longrightarrow> unregistered k i s"
    and ne: "\<not> (c \<and> j = k \<and> i' = i)"
    and r: "watch cl j f opts i' s = Some (st, s', t)" and n: "\<not> redrawn k i c t"
  shows "no_late_call k i False c t \<and> (c \<or> cancelled k i t \<longrightarrow> unregistered k i s')"
proof -
  have s1: "c \<longrightarrow> unregistered k i (register j f opts i' s)"
    using s ne by (auto simp: unregistered_register)
  show ?thesis
  proof (cases "truthy (always (resolve opts)) \<and> has_wm s j")
    case False
    with r s1 show ?thesis by (auto simp: watch_def Let_def ok_def)
  next
    case True
    with r have "cl f j i' (this_of (ocontext (resolve opts)))
        (get_wm s j) (previous_get s j) (Some (j, i')) (register j f opts i' s) = Some (st, s', t)"
      by (simp add: watch_def Let_def call_with_eq)
    from soundD [OF g s1 _ this n, of False] show ?thesis by simp
  qed
qed

lemma once_sound:
  assumes g: "sound k i cl" and s: "c \<longrightarrow> unregistered k i s"
    and ne: "\<not> (c \<and> j = k \<and> i' = i)"
    and r: "once cl j cb opts i' s = Some (st, s', t)" and n: "\<not> redrawn k i c t"
  shows "no_late_call k i False c t \<and> (c \<or> cancelled k i t \<longrightarrow> unregistered k i s')"
proof -
  let ?c = "next_cell s"
  let ?s0 = "declare_unwatch s"
  have s0: "c \<longrightarrow> unregistered k i ?s0" using s by simp
  from r have
    "(\<exists>e. watch cl j (OnceWrapper cb opts ?c) opts i' ?s0 = Some (Threw e, s', t)) \<or>
     (\<exists>s1. watch cl j (OnceWrapper cb opts ?c) opts i' ?s0 = Some (Ok, s1, t)
        \<and> s' = s1\<lparr>cells := (cells s1)(?c \<mapsto> (j, i'))\<rparr>)"
    unfolding once_Some by blast
  then show ?thesis
  proof (elim disjE exE conjE)
    fix e assume "watch cl j (OnceWrapper cb opts ?c) opts i' ?s0 = Some (Threw e, s', t)"
    from watch_sound [OF g s0 ne this n] show ?thesis .
  next
    fix s1 assume w: "watch cl j (OnceWrapper cb opts ?c) opts i' ?s0 = Some (Ok, s1, t)"
      and s': "s' = s1\<lparr>cells := (cells s1)(?c \<mapsto> (j, i'))\<rparr>"
    from watch_sound [OF g s0 ne w n] s' show ?thesis by simp
  qed
qed

lemma do_action_sound:
  assumes g: "sound k i cl" and s: "c \<longrightarrow> unregistered k i s"
    and r: "do_action cl a s = Some (st, s', t)" and n: "\<not> redrawn k i c t"
  shows "no_late_call k i False c t \<and> (c \<or> cancelled k i t \<longrightarrow> unregistered k i s')"
proof (cases a)
  case (ASet j v)
  with r obtain ch where f: "set_wm cl j v s = Some (st, s', ch)" and t: "t = [SetCalled j v ch]"
    by (auto simp: do_action_def nest_Some)
  from n t have "\<not> redrawn k i c ch" by simp
  from set_wm_sound [OF g s f this] t show ?thesis by simp
next
  case (ADelete j)
  with r s show ?thesis by (auto simp: do_action_def)
next
  case AClear
  with r s show ?thesis by (auto simp: do_action_def)
next
  case (AGet j)
  with r s show ?thesis by (auto simp: do_action_def)
next
  case (ACount j)
  with r s show ?thesis by (auto simp: do_action_def)
next
  case (AWatch j cb opts i')
  with r obtain u where f: "watch cl j (User cb) opts i' s = Some (st, s', u)"
    and t: "t = Registered j i' # u"
    by (auto simp: do_action_def after_Some)
  from n t have ne: "\<not> (c \<and> j = k \<and> i' = i)" and nu: "\<not> redrawn k i c u" by simp_all
  from watch_sound [OF g s ne f nu] t show ?thesis by simp
next
  case (AOnce j cb opts i')
  with r obtain u where f: "once cl j cb opts i' s = Some (st, s', u)"
    and t: "t = Registered j i' # u"
    by (auto simp: do_action_def after_Some)
  from n t have ne: "\<not> (c \<and> j = k \<and> i' = i)" and nu: "\<not> redrawn k i c u" by simp_all
  from once_sound [OF g s ne f nu] t show ?thesis by simp
next
  case (AUnwatch j i')
  with r s show ?thesis by (auto simp: do_action_def unregistered_unwatch)
qed

lemma run_body_sound:
  assumes g: "sound k i cl"
  shows "(c \<longrightarrow> unregistered k i s) \<Longrightarrow> run_body cl body s = Some (st, s', t) \<Longrightarrow>
    \<not> redrawn k i c t \<Longrightarrow>
    no_late_call k i False c t \<and> (c \<or> cancelled k i t \<longrightarrow> unregistered k i s')"
proof (induction body arbitrary: s t c)
  case Nil
  then show ?case by (auto simp: ok_def)
next
  case (Cons a as)
  from Cons.prems(2) have
    "(\<exists>e. do_action cl a s = Some (Threw e, s', t)) \<or>
     (\<exists>s1 t1 t2. do_action cl a s = Some (Ok, s1, t1)
        \<and> run_body cl as s1 = Some (st, s', t2) \<and> t = t1 @ t2)"
    by (auto simp: and_then_Some)
  then show ?case
  proof (elim disjE exE conjE)
    fix e assume "do_action cl a s = Some (Threw e, s', t)"
    from do_action_sound [OF g Cons.prems(1) this Cons.prems(3)] show ?thesis .
  next
    fix s1 t1 t2
    assume r: "do_action cl a s = Some (Ok, s1, t1)"
      and r2: "run_body cl as s1 = Some (st, s', t2)" and t: "t = t1 @ t2"
    from Cons.prems(3) t have n1: "\<not> redrawn k i c t1"
      and n2: "\<not> redrawn k i (c \<or> cancelled k i t1) t2"
      by (simp_all add: redrawn_append)
    from do_action_sound [OF g Cons.prems(1) r n1]
    have l1: "no_late_call k i False c t1"
      and u1: "c \<or> cancelled k i t1 \<longrightarrow> unregistered k i s1"
      by simp_all
    from Cons.IH [OF u1 r2 n2] l1 t show ?thesis
      by (auto simp: no_late_call_append)
  qed
qed

lemma call_sound: "sound k i (call n)"
proof (induction n)
  case 0
  show ?case by (simp add: sound_def)
next
  case (Suc n)
  show ?case
    unfolding sound_def
  proof (intro allI impI)
    fix f j w this v old arg s st s' t p c
    assume s: "c \<longrightarrow> unregistered k i s" and pw: "p \<longrightarrow> (j, w) \<noteq> (k, i)"
      and r: "call (Suc n) f j w this v old arg s = Some (st, s', t)"
      and nr: "\<not> redrawn k i c t"
    show "no_late_call k i p c t \<and> (c \<or> cancelled k i t \<longrightarrow> unregistered k i s')"
    proof (cases f)
      case (User cb)
      show ?thesis
      proof (cases cb)
        case (NotCallable x)
        with r User s show ?thesis by (auto simp: throw_def)
      next
        case (Fn l body)
        with r User obtain ch where b: "run_body (call n) body s = Some (st, s', ch)"
          and t: "t = [Call j w l this v old ch]"
          by (auto simp: nest_Some)
        from nr t have "\<not> redrawn k i c ch" by simp
        from run_body_sound [OF Suc s b this] t pw show ?thesis by simp
      qed
    next
      case (OnceWrapper cb opts c0)
      let ?r1 = "call n (User cb) j w (this_of (ocontext (resolve opts))) v old None s"
      from r OnceWrapper have
        "(\<exists>e. ?r1 = Some (Threw e, s', t)) \<or>
         (\<exists>s1 t1 t2. ?r1 = Some (Ok, s1, t1) \<and> retire c0 arg s1 = Some (st, s', t2)
            \<and> t = t1 @ t2)"
        by (auto simp: and_then_Some call_with_eq)
      then show ?thesis
      proof (elim disjE exE conjE)
        fix e assume "?r1 = Some (Threw e, s', t)"
        from soundD [OF Suc s pw this nr] show ?thesis .
      next
        fix s1 t1 t2
        assume r1: "?r1 = Some (Ok, s1, t1)" and r2: "retire c0 arg s1 = Some (st, s', t2)"
          and t: "t = t1 @ t2"
        from nr t have n1: "\<not> redrawn k i c t1" by (simp add: redrawn_append)
        from soundD [OF Suc s pw r1 n1]
        have l1: "no_late_call k i p c t1"
          and u1: "c \<or> cancelled k i t1 \<longrightarrow> unregistered k i s1"
          by simp_all
        from r2 l1 u1 t show ?thesis
          by (auto simp: retire_Some no_late_call_append unregistered_unwatch)
      qed
    qed
  qed
qed

lemma run_sound:
  assumes "run n p s = Some (st, s', t)" and "\<not> redrawn k i False t"
  shows "no_late_call k i False False t \<and> (cancelled k i t \<longrightarrow> unregistered k i s')"
  using run_body_sound [OF call_sound, of False k i s n p st s' t] assms
  by (simp add: run_def)

section \<open>Reads before the first write see the entry a call started with\<close>

lemma steadyD:
  "steady k cl \<Longrightarrow> cl f j i this v old arg s = Some (st, s', t) \<Longrightarrow>
   list_all (\<lambda>y. y = get_wm s k) (early_reads k t)
   \<and> (\<not> touched k t \<longrightarrow> store s' k = store s k)"
  unfolding steady_def by blast

lemma get_wm_store: "store s' k = store s k \<Longrightarrow> get_wm s' k = get_wm s k"
  by (simp add: get_wm_def)

lemma get_wm_update [simp]:
  "get_wm (s\<lparr>previous := p\<rparr>) = get_wm s"
  "get_wm (s\<lparr>cells := c\<rparr>) = get_wm s"
  "get_wm (s\<lparr>next_cell := n\<rparr>) = get_wm s"
  "get_wm (declare_unwatch s) = get_wm s"
  by (simp_all add: get_wm_def fun_eq_iff)

lemma early_reads_step:
  assumes "list_all (\<lambda>y. y = get_wm s k) (early_reads k t1)
      \<and> (\<not> touched k t1 \<longrightarrow> store s1 k = store s k)"
    and "list_all (\<lambda>y. y = get_wm s1 k) (early_reads k t2)
      \<and> (\<not> touched k t2 \<longrightarrow> store s' k = store s1 k)"
    and "t = t1 @ t2"
  shows "list_all (\<lambda>y. y = get_wm s k) (early_reads k t)
    \<and> (\<not> touched k t \<longrightarrow> store s' k = store s k)"
  using assms by (auto simp: early_reads_append get_wm_def)

lemma forEach_steady:
  assumes g: "steady k cl"
  shows "forEach (fire_one cl j v old) ws s = Some (st, s', t) \<Longrightarrow>
    list_all (\<lambda>y. y = get_wm s k) (early_reads k t)
    \<and> (\<not> touched k t \<longrightarrow> store s' k = store s k)"
proof (induction ws arbitrary: s t)
  case Nil
  then show ?case by (auto simp: ok_def)
next
  case (Cons w ws)
  let ?f = "fire_one cl j v old"
  have one: "list_all (\<lambda>y. y = get_wm s k) (early_reads k t1)
      \<and> (\<not> touched k t1 \<longrightarrow> store s1 k = store s k)"
    if "?f w s = Some (st1, s1, t1)" for st1 s1 t1
  proof -
    from that have "cl (callback w) j (wid w) (this_in_pass w) v old None s = Some (st1, s1, t1)"
      by (simp add: fire_one_eq)
    from steadyD [OF g this] show ?thesis .
  qed
  from Cons.prems have
    "(\<exists>e. ?f w s = Some (Threw e, s', t)) \<or>
     (\<exists>s1 t1 t2. ?f w s = Some (Ok, s1, t1) \<and> forEach ?f ws s1 = Some (st, s', t2) \<and> t = t1 @ t2)"
    by (auto simp: and_then_Some)
  then show ?case
  proof (elim disjE exE conjE)
    fix e assume "?f w s = Some (Threw e, s', t)"
    from one [OF this] show ?thesis .
  next
    fix s1 t1 t2
    assume r: "?f w s = Some (Ok, s1, t1)" and r2: "forEach ?f ws s1 = Some (st, s', t2)"
      and t: "t = t1 @ t2"
    from one [OF r] Cons.IH [OF r2] t show ?thesis
      by (rule early_reads_step)
  qed
qed

lemma fire_steady:
  assumes g: "steady k cl" and r: "fire cl j v s = Some (st, s', t)"
  shows "list_all (\<lambda>y. y = get_wm s k) (early_reads k t)
    \<and> (\<not> touched k t \<longrightarrow> store s' k = store s k)"
proof (cases "watchers s j")
  case None
  with r show ?thesis by (auto simp: fire_def ok_def)
next
  case (Some ws)
  with r forEach_steady [OF g] show ?thesis
    by (simp add: fire_def Let_def)
qed

lemma set_wm_steady:
  assumes g: "steady k cl" and r: "set_wm cl j v s = Some (st, s', t)"
  shows "list_all (\<lambda>y. y = get_wm s k) (early_reads k t)
    \<and> (\<not> touched k t \<longrightarrow> st \<noteq> Ok \<or> j \<noteq> k \<longrightarrow> store s' k = store s k)"
proof -
  let ?s0 = "s\<lparr>previous := (previous s)(j \<mapsto> get_wm s j)\<rparr>"
  from r have
    "(\<exists>e. fire cl j v ?s0 = Some (Threw e, s', t) \<and> st = Threw e) \<or>
     (\<exists>s1. fire cl j v ?s0 = Some (Ok, s1, t) \<and> st = Ok
        \<and> s' = s1\<lparr>store := (store s1)(j \<mapsto> v)\<rparr>)"
    unfolding set_wm_Some by blast
  then show ?thesis
  proof (elim disjE exE conjE)
    fix e assume "fire cl j v ?s0 = Some (Threw e, s', t)"
    from fire_steady [OF g this] show ?thesis by simp
  next
    fix s1 assume f: "fire cl j v ?s0 = Some (Ok, s1, t)" and "st = Ok"
      and s': "s' = s1\<lparr>store := (store s1)(j \<mapsto> v)\<rparr>"
    with fire_steady [OF g f] show ?thesis by simp
  qed
qed

lemma watch_steady:
  assumes g: "steady k cl" and r: "watch cl j f opts i s = Some (st, s', t)"
  shows "list_all (\<lambda>y. y = get_wm s k) (early_reads k t)
    \<and> (\<not> touched k t \<longrightarrow> store s' k = store s k)"
proof (cases "truthy (always (resolve opts)) \<and> has_wm s j")
  case False
  with r show ?thesis by (auto simp: watch_def Let_def ok_def)
next
  case True
  with r have "cl f j i (this_of (ocontext (resolve opts)))
      (get_wm s j) (previous_get s j) (Some (j, i)) (register j f opts i s) = Some (st, s', t)"
    by (simp add: watch_def Let_def call_with_eq)
  from steadyD [OF g this] show ?thesis by simp
qed

lemma once_steady:
  assumes g: "steady k cl" and r: "once cl j cb opts i s = Some (st, s', t)"
  shows "list_all (\<lambda>y. y = get_wm s k) (early_reads k t)
    \<and> (\<not> touched k t \<longrightarrow> store s' k = store s k)"
proof -
  let ?c = "next_cell s"
  let ?s0 = "declare_unwatch s"
  from r have
    "(\<exists>e. watch cl j (OnceWrapper cb opts ?c) opts i ?s0 = Some (Threw e, s', t)) \<or>
     (\<exists>s1. watch cl j (OnceWrapper cb opts ?c) opts i ?s0 = Some (Ok, s1, t)
        \<and> s' = s1\<lparr>cells := (cells s1)(?c \<mapsto> (j, i))\<rparr>)"
    unfolding once_Some by blast
  then show ?thesis
  proof (elim disjE exE conjE)
    fix e assume "watch cl j (OnceWrapper cb opts ?c) opts i ?s0 = Some (Threw e, s', t)"
    from watch_steady [OF g this] show ?thesis by simp
  next
    fix s1 assume w: "watch cl j (OnceWrapper cb opts ?c) opts i ?s0 = Some (Ok, s1, t)"
      and s': "s' = s1\<lparr>cells := (cells s1)(?c \<mapsto> (j, i))\<rparr>"
    from watch_steady [OF g w] s' show ?thesis by simp
  qed
qed

lemma store_delete_other: "j \<noteq> k \<Longrightarrow> store (snd (delete_wm j s)) k = store s k"
  by (simp add: delete_wm_def Let_def)

lemma do_action_steady:
  assumes g: "steady k cl" and r: "do_action cl a s = Some (st, s', t)"
  shows "list_all (\<lambda>y. y = get_wm s k) (early_reads k t)
    \<and> (\<not> touched k t \<longrightarrow> store s' k = store s k)"
proof (cases a)
  case (ASet j v)
  with r obtain ch where f: "set_wm cl j v s = Some (st, s', ch)" and t: "t = [SetCalled j v ch]"
    by (auto simp: do_action_def nest_Some)
  from set_wm_steady [OF g f] t show ?thesis by auto
next
  case (ADelete j)
  with r show ?thesis by (auto simp: do_action_def store_delete_other)
next
  case AClear
  with r show ?thesis by (auto simp: do_action_def)
next
  case (AGet j)
  with r show ?thesis by (auto simp: do_action_def)
next
  case (ACount j)
  with r show ?thesis by (auto simp: do_action_def)
next
  case (AWatch j cb opts i')
  with r obtain u where f: "watch cl j (User cb) opts i' s = Some (st, s', u)"
    and t: "t = Registered j i' # u"
    by (auto simp: do_action_def after_Some)
  from watch_steady [OF g f] t show ?thesis by simp
next
  case (AOnce j cb opts i')
  with r obtain u where f: "once cl j cb opts i' s = Some (st, s', u)"
    and t: "t = Registered j i' # u"
    by (auto simp: do_action_def after_Some)
  from once_steady [OF g f] t show ?thesis by simp
next
  case (AUnwatch j i')
  with r show ?thesis by (auto simp: do_action_def)
qed

lemma run_body_steady:
  assumes g: "steady k cl"
  shows "run_body cl body s = Some (st, s', t) \<Longrightarrow>
    list_all (\<lambda>y. y = get_wm s k) (early_reads k t)
    \<and> (\<not> touched k t \<longrightarrow> store s' k = store s k)"
proof (induction body arbitrary: s t)
  case Nil
  then show ?case by (auto simp: ok_def)
next
  case (Cons a as)
  from Cons.prems have
    "(\<exists>e. do_action cl a s = Some (Threw e, s', t)) \<or>
     (\<exists>s1 t1 t2. do_action cl a s = Some (Ok, s1, t1)
        \<and> run_body cl as s1 = Some (st, s', t2) \<and> t = t1 @ t2)"
    by (auto simp: and_then_Some)
  then show ?case
  proof (elim disjE exE conjE)
    fix e assume "do_action cl a s = Some (Threw e, s', t)"
    from do_action_steady [OF g this] show ?thesis .
  next
    fix s1 t1 t2
    assume r: "do_action cl a s = Some (Ok, s1, t1)"
      and r2: "run_body cl as s1 = Some (st, s', t2)" and t: "t = t1 @ t2"
    from do_action_steady [OF g r] Cons.IH [OF r2] t show ?thesis
      by (rule early_reads_step)
  qed
qed

lemma call_steady: "steady k (call n)"
proof (induction n)
  case 0
  show ?case by (simp add: steady_def)
next
  case (Suc n)
  show ?case
    unfolding steady_def
  proof (intro allI impI)
    fix f j w this v old arg s st s' t
    assume r: "call (Suc n) f j w this v old arg s = Some (st, s', t)"
    show "list_all (\<lambda>y. y = get_wm s k) (early_reads k t)
      \<and> (\<not> touched k t \<longrightarrow> store s' k = store s k)"
    proof (cases f)
      case (User cb)
      show ?thesis
      proof (cases cb)
        case (NotCallable x)
        with r User show ?thesis by (auto simp: throw_def)
      next
        case (Fn l body)
        with r User obtain ch where b: "run_body (call n) body s = Some (st, s', ch)"
          and t: "t = [Call j w l this v old ch]"
          by (auto simp: nest_Some)
        from run_body_steady [OF Suc b] t show ?thesis by simp
      qed
    next
      case (OnceWrapper cb opts c0)
      let ?r1 = "call n (User cb) j w (this_of (ocontext (resolve opts))) v old None s"
      from r OnceWrapper have
        "(\<exists>e. ?r1 = Some (Threw e, s', t)) \<or>
         (\<exists>s1 t1 t2. ?r1 = Some (Ok, s1, t1) \<and> retire c0 arg s1 = Some (st, s', t2)
            \<and> t = t1 @ t2)"
        by (auto simp: and_then_Some call_with_eq)
      then show ?thesis
      proof (elim disjE exE conjE)
        fix e assume "?r1 = Some (Threw e, s', t)"
        from steadyD [OF Suc this] show ?thesis .
      next
        fix s1 t1 t2
        assume r1: "?r1 = Some (Ok, s1, t1)" and r2: "retire c0 arg s1 = Some (st, s', t2)"
          and t: "t = t1 @ t2"
        from r2 have "list_all (\<lambda>y. y = get_wm s1 k) (early_reads k t2)
          \<and> (\<not> touched k t2 \<longrightarrow> store s' k = store s1 k)"
          by (auto simp: retire_Some)
        from steadyD [OF Suc r1] this t show ?thesis
          by (rule early_reads_step)
      qed
    qed
  qed
qed

section \<open>Callbacks that only read\<close>

lemma observe_no_calls [simp]:
  "all_invocations k i (observe s a) = []" "fired (observe s a) = []"
  by (cases a; simp add: invocations.simps)+

lemma observe_all_no_calls [simp]:
  "all_invocations k i (observe_all s body) = []" "fired (observe_all s body) = []"
  by (induction body) (simp_all add: observe_all_def)

lemma do_action_read: "is_read a \<Longrightarrow> do_action cl a s = Some (Ok, s, observe s a)"
  by (cases a) (simp_all add: do_action_def)

lemma run_body_reads:
  "only_reads body \<Longrightarrow> run_body cl body s = Some (Ok, s, observe_all s body)"
  by (induction body) (simp_all add: only_reads_def observe_all_def ok_def do_action_read and_then_def)

lemma call_reader:
  "only_reads body \<Longrightarrow>
   call (Suc n) (User (Fn l body)) k i this v old arg s =
     Some (Ok, s, [Call k i l this v old (observe_all s body)])"
  by (simp add: run_body_reads nest_def)

lemma reader_fn_cases:
  "reader_fn f \<Longrightarrow> \<exists>l body. f = User (Fn l body) \<and> only_reads body"
  by (cases f rule: reader_fn.cases) simp_all

lemma forEach_readers:
  "\<forall>w\<in>set ws. reader_fn (callback w) \<Longrightarrow>
   \<exists>t. forEach (fire_one (call (Suc n)) k v old) ws s = Some (Ok, s, t) \<and>
       all_invocations k i t = concat (map (\<lambda>w. if wid w = i then [(v, old)] else []) ws)"
proof (induction ws)
  case Nil
  show ?case by (simp add: ok_def)
next
  case (Cons w ws)
  from Cons.prems obtain l body where f: "callback w = User (Fn l body)" and b: "only_reads body"
    using reader_fn_cases by fastforce
  from Cons.prems have rest: "\<forall>w\<in>set ws. reader_fn (callback w)" by simp
  from Cons.IH [OF rest] obtain t where
    t: "forEach (fire_one (call (Suc n)) k v old) ws s = Some (Ok, s, t)"
    and i: "all_invocations k i t = concat (map (\<lambda>w. if wid w = i then [(v, old)] else []) ws)"
    by blast
  have "fire_one (call (Suc n)) k v old w s =
      Some (Ok, s, [Call k (wid w) l (this_in_pass w) v old (observe_all s body)])"
    unfolding fire_one_eq f by (rule call_reader [OF b])
  with t i show ?case by (simp add: and_then_def del: call.simps)
qed

lemma set_wm_readers:
  assumes "\<forall>w\<in>set (watchers_of s k). reader_fn (callback w)"
  shows "\<exists>t. set_wm (call (Suc n)) k v s =
           Some (Ok, s\<lparr>previous := (previous s)(k \<mapsto> get_wm s k), store := (store s)(k \<mapsto> v)\<rparr>, t)
         \<and> all_invocations k i t =
             concat (map (\<lambda>w. if wid w = i then [(v, get_wm s k)] else []) (watchers_of s k))"
proof -
  let ?s0 = "s\<lparr>previous := (previous s)(k \<mapsto> get_wm s k)\<rparr>"
  have g: "get_wm ?s0 k = get_wm s k" by (simp add: get_wm_def)
  show ?thesis
  proof (cases "watchers s k")
    case None
    then show ?thesis
      by (simp add: set_wm_def fire_def ok_def and_then_def watchers_of_def)
  next
    case (Some ws)
    with assms have "\<forall>w\<in>set ws. reader_fn (callback w)" by (simp add: watchers_of_def)
    from forEach_readers [OF this, of n k v "get_wm s k" ?s0 i] obtain t where
      "forEach (fire_one (call (Suc n)) k v (get_wm s k)) ws ?s0 = Some (Ok, ?s0, t)"
      "all_invocations k i t = concat (map (\<lambda>w. if wid w = i then [(v, get_wm s k)] else []) ws)"
      by blast
    with Some g show ?thesis
      by (simp add: set_wm_def fire_def Let_def ok_def and_then_def watchers_of_def
          del: call.simps)
  qed
qed

lemma forEach_append:
  "forEach f (xs @ ys) s = and_then (forEach f xs s) (forEach f ys)"
proof (induction xs arbitrary: s)
  case Nil
  show ?case by (simp add: ok_def and_then_def split: option.splits status.splits prod.splits)
next
  case (Cons x xs)
  show ?case
    by (simp add: Cons and_then_def split: option.splits status.splits prod.splits)
qed


section \<open>Callbacks that call no function\<close>

lemma do_action_calls_nothing:
  "calls_nothing a \<Longrightarrow> \<exists>s' t. do_action cl a s = Some (Ok, s', t)"
  by (cases a) (simp_all add: do_action_def)

lemma run_body_calls_nothing:
  "list_all calls_nothing body \<Longrightarrow> \<exists>s' t. run_body cl body s = Some (Ok, s', t)"
proof (induction body arbitrary: s)
  case Nil
  show ?case by (simp add: ok_def)
next
  case (Cons a as)
  from Cons.prems have "calls_nothing a" and rest: "list_all calls_nothing as" by simp_all
  from do_action_calls_nothing [OF this(1)] obtain s1 t1 where
    a: "do_action cl a s = Some (Ok, s1, t1)" by blast
  from Cons.IH [OF rest] obtain s2 t2 where "run_body cl as s1 = Some (Ok, s2, t2)" by blast
  with a show ?case by (simp add: and_then_def)
qed

lemma canceller_fn_cases:
  "canceller_fn f \<Longrightarrow> \<exists>l body. f = User (Fn l body) \<and> list_all calls_nothing body"
  by (cases f rule: canceller_fn.cases) simp_all

lemma forEach_cancellers:
  "\<forall>w\<in>set ws. canceller_fn (callback w) \<Longrightarrow>
   \<exists>s' t. forEach (fire_one (call (Suc n)) k v old) ws s = Some (Ok, s', t)"
proof (induction ws arbitrary: s)
  case Nil
  show ?case by (simp add: ok_def)
next
  case (Cons w ws)
  from Cons.prems obtain l body where f: "callback w = User (Fn l body)"
    and b: "list_all calls_nothing body"
    using canceller_fn_cases by fastforce
  from run_body_calls_nothing [OF b] obtain s1 t1 where
    "run_body (call n) body s = Some (Ok, s1, t1)" by blast
  then have one: "fire_one (call (Suc n)) k v old w s =
      Some (Ok, s1, [Call k (wid w) l (this_in_pass w) v old t1])"
    unfolding fire_one_eq f by (simp add: nest_def)
  from Cons.prems have rest: "\<forall>w\<in>set ws. canceller_fn (callback w)" by simp
  from Cons.IH [OF rest] obtain s2 t2 where
    "forEach (fire_one (call (Suc n)) k v old) ws s1 = Some (Ok, s2, t2)" by blast
  with one show ?case by (simp add: and_then_def del: call.simps)
qed

lemma fire_cancellers:
  assumes "cancellers s k"
  shows "\<exists>s' t. fire (call (Suc n)) k v s = Some (Ok, s', t)"
proof (cases "watchers s k")
  case None
  then show ?thesis by (simp add: fire_def ok_def)
next
  case (Some ws)
  with assms have "\<forall>w\<in>set ws. canceller_fn (callback w)"
    by (simp add: cancellers_iff watchers_of_def)
  from forEach_cancellers [OF this, of n k v "get_wm s k" s] Some show ?thesis
    by (simp add: fire_def Let_def del: call.simps)
qed

section \<open>Watchers that cannot be called\<close>





lemma has_dud_previous [simp]: "has_dud (s\<lparr>previous := p\<rparr>) k = has_dud s k"
  by (simp add: has_dud_def)




section \<open>Where the code departs from its documentation and tests\<close>

text \<open>
  In the traces below, \<open>Registered\<close> marks a call of \<^verbatim>\<open>watch\<close> or \<^verbatim>\<open>once\<close> by the
  program, the calls of a firing pass are the children of the \<open>SetCalled\<close> node of the
  \<^verbatim>\<open>set\<close> that started it, and what a callback did is below its \<open>Call\<close> node. A
  callback that \<^verbatim>\<open>_fire\<close> calls without a context is called as a method of its watcher
  record.
\<close>

text \<open>
  C1 (set with an unchanged value). The test "Set watchers should only fire when watched
  value changes" of \<^verbatim>\<open>test/index.js\<close> watches \<^verbatim>\<open>'TEST'\<close>, sets it to 5, 4, 4, 4, 3 and
  expects three calls of the callback. \<^verbatim>\<open>set\<close> calls \<^verbatim>\<open>_fire\<close> without comparing the
  value with the stored one, so the callback is called five times, twice with
  \<open>value = oldValue = 4\<close>.
\<close>

theorem C1_set_unchanged_value_fires:
  "trace_of (run 1 [AWatch ''TEST'' (Fn 0 []) None ''w'',
       ASet ''TEST'' (Num 5), ASet ''TEST'' (Num 4), ASet ''TEST'' (Num 4),
       ASet ''TEST'' (Num 4), ASet ''TEST'' (Num 3)] empty_map)
   = Some (Ok,
      [Registered ''TEST'' ''w'',
       SetCalled ''TEST'' (Num 5)
         [Call ''TEST'' ''w'' 0 (Record (new_record (User (Fn 0 [])) ''w'' None))
            (Num 5) Undefined []],
       SetCalled ''TEST'' (Num 4)
         [Call ''TEST'' ''w'' 0 (Record (new_record (User (Fn 0 [])) ''w'' None))
            (Num 4) (Num 5) []],
       SetCalled ''TEST'' (Num 4)
         [Call ''TEST'' ''w'' 0 (Record (new_record (User (Fn 0 [])) ''w'' None))
            (Num 4) (Num 4) []],
       SetCalled ''TEST'' (Num 4)
         [Call ''TEST'' ''w'' 0 (Record (new_record (User (Fn 0 [])) ''w'' None))
            (Num 4) (Num 4) []],
       SetCalled ''TEST'' (Num 3)
         [Call ''TEST'' ''w'' 0 (Record (new_record (User (Fn 0 [])) ''w'' None))
            (Num 3) (Num 4) []]])"
  by (simp add: wm_defs Let_def)

text \<open>
  C2 (delete fires the watchers). The documentation of \<^verbatim>\<open>watch\<close> says the callback is
  fired "every time the value of the item is changed via set()/delete()", and the test
  "Set watchers should fire with the old and new values" deletes the key after three
  sets. \<^verbatim>\<open>delete\<close> never calls \<^verbatim>\<open>_fire\<close>: on the existing key it returns true and no
  watcher is called with \<open>(undefined, 2)\<close>.
\<close>

theorem C2_delete_fires_nothing:
  "trace_of (run 1 [AWatch ''TEST'' (Fn 0 []) None ''w'',
       ASet ''TEST'' (Num 1), ASet ''TEST'' (Num 5), ASet ''TEST'' (Num 2),
       ADelete ''TEST''] empty_map)
   = Some (Ok,
      [Registered ''TEST'' ''w'',
       SetCalled ''TEST'' (Num 1)
         [Call ''TEST'' ''w'' 0 (Record (new_record (User (Fn 0 [])) ''w'' None))
            (Num 1) Undefined []],
       SetCalled ''TEST'' (Num 5)
         [Call ''TEST'' ''w'' 0 (Record (new_record (User (Fn 0 [])) ''w'' None))
            (Num 5) (Num 1) []],
       SetCalled ''TEST'' (Num 2)
         [Call ''TEST'' ''w'' 0 (Record (new_record (User (Fn 0 [])) ''w'' None))
            (Num 2) (Num 5) []],
       Deleted ''TEST'' True])"
  by (simp add: wm_defs Let_def)

text \<open>
  C4 (a once callback is called at most once). The documentation of \<^verbatim>\<open>once\<close> says the
  callback is fired "only once". The arrow function of \<^verbatim>\<open>once\<close> calls the callback
  first and unwatches afterwards, and \<^verbatim>\<open>forEach\<close> walks the array it started on. Here
  the watcher \<open>a\<close> unwatches itself and sets the key again; the inner \<^verbatim>\<open>set\<close> fires the
  once watcher \<open>b\<close> (label 2) and retires it, and the outer loop, still on the old
  array, calls it a second time.
\<close>

theorem C4_once_called_twice:
  "trace_of (run 3 [AWatch ''k'' (Fn 1 [AUnwatch ''k'' ''a'', ASet ''k'' (Num 2)]) None ''a'',
       AOnce ''k'' (Fn 2 []) None ''b'',
       ASet ''k'' (Num 1)] empty_map)
   = Some (Ok,
      [Registered ''k'' ''a'', Registered ''k'' ''b'',
       SetCalled ''k'' (Num 1)
         [Call ''k'' ''a'' 1
            (Record (new_record (User (Fn 1 [AUnwatch ''k'' ''a'', ASet ''k'' (Num 2)]))
               ''a'' None))
            (Num 1) Undefined
            [Unwatched ''k'' ''a'',
             SetCalled ''k'' (Num 2)
               [Call ''k'' ''b'' 2 NoReceiver (Num 2) Undefined [], Unwatched ''k'' ''b'']],
          Call ''k'' ''b'' 2 NoReceiver (Num 1) Undefined [],
          Unwatched ''k'' ''b'']])"
  by (simp add: wm_defs Let_def eval_nat_numeral)

section \<open>Properties that hold\<close>

lemma get_wm_delete: "get_wm (snd (delete_wm k s)) k = Undefined"
  by (simp add: delete_wm_def get_wm_def Let_def)

lemma twice_set_state_reached:
  "run 0 [ASet ''k'' (Num 1), ASet ''k'' (Num 2)] empty_map =
     Some (Ok, twice_set_state, [SetCalled ''k'' (Num 1) [], SetCalled ''k'' (Num 2) []])"
  by (simp add: wm_defs Let_def twice_set_state_def)

text \<open>
  C10 (delete leaves the watchers alone). \<^verbatim>\<open>delete(k)\<close> changes the base store and the
  \<^verbatim>\<open>'previous'\<close> map only: the watcher arrays of all keys, and so every
  \<^verbatim>\<open>countWatchers(j)\<close>, are as before. A following \<^verbatim>\<open>set(k, v)\<close> that returns has
  called exactly the watchers that were registered on \<open>k\<close> before the delete, in
  order, with \<open>(v, undefined)\<close>; and it does return when those watchers only read.
\<close>

theorem C10_delete_keeps_watchers:
  "watchers (snd (delete_wm k s)) = watchers s
   \<and> countWatchers (snd (delete_wm k s)) j = countWatchers s j
   \<and> (set_wm (call n) k v (snd (delete_wm k s)) = Some (Ok, s', t) \<longrightarrow>
        fired t = map (\<lambda>w. (k, wid w, v, Undefined)) (watchers_of s k))
   \<and> (readers s k \<longrightarrow>
        (\<exists>s2 t2. set_wm (call (Suc n)) k v (snd (delete_wm k s)) = Some (Ok, s2, t2)
           \<and> fired t2 = map (\<lambda>w. (k, wid w, v, Undefined)) (watchers_of s k)))"
proof (intro conjI impI)
  show "watchers (snd (delete_wm k s)) = watchers s" by (rule watchers_delete)
  show "countWatchers (snd (delete_wm k s)) j = countWatchers s j"
    by (simp add: countWatchers_length watchers_of_delete)
  show "fired t = map (\<lambda>w. (k, wid w, v, Undefined)) (watchers_of s k)"
    if "set_wm (call n) k v (snd (delete_wm k s)) = Some (Ok, s', t)"
    using set_wm_fired [OF that] by (simp add: get_wm_delete watchers_of_delete)
  show "\<exists>s2 t2. set_wm (call (Suc n)) k v (snd (delete_wm k s)) = Some (Ok, s2, t2)
      \<and> fired t2 = map (\<lambda>w. (k, wid w, v, Undefined)) (watchers_of s k)"
    if "readers s k"
  proof -
    from that have "\<forall>w\<in>set (watchers_of (snd (delete_wm k s)) k). reader_fn (callback w)"
      by (simp add: readers_iff watchers_of_delete)
    from set_wm_readers [OF this, of n v "''''"] obtain s2 t2 where
      r: "set_wm (call (Suc n)) k v (snd (delete_wm k s)) = Some (Ok, s2, t2)" by blast
    from set_wm_fired [OF r] r show ?thesis
      by (simp add: get_wm_delete watchers_of_delete)
  qed
qed

theorem C10_delete_keeps_watchers_witness:
  "set_wm (call 1) ''k'' (Num 2) (snd (delete_wm ''k'' watched_state)) =
     Some (Ok,
       \<lparr>store = [''k'' \<mapsto> Num 2], previous = [''k'' \<mapsto> Undefined],
        watchers = [''k'' \<mapsto>
          [\<lparr>callback = User (Fn 0 [AGet ''k'']), wid = ''a'', wcontext = Undefined\<rparr>]],
        cells = Map.empty, next_cell = 0\<rparr>,
       [Call ''k'' ''a'' 0 (Record (new_record (User (Fn 0 [AGet ''k''])) ''a'' None))
          (Num 2) Undefined [Got ''k'' Undefined]])
   \<and> fired [Call ''k'' ''a'' 0 (Record (new_record (User (Fn 0 [AGet ''k''])) ''a'' None))
          (Num 2) Undefined [Got ''k'' Undefined]]
       = map (\<lambda>w. (''k'', wid w, Num 2, Undefined)) (watchers_of watched_state ''k'')
   \<and> readers watched_state ''k''
   \<and> countWatchers (snd (delete_wm ''k'' watched_state)) ''k'' = 1
   \<and> watchers (snd (delete_wm ''k'' watched_state)) = watchers watched_state"
  using C10_delete_keeps_watchers [where k = "''k''" and s = watched_state and j = "''k''"
      and n = 1 and v = "Num 2"
      and t = "[Call ''k'' ''a'' 0 (Record (new_record (User (Fn 0 [AGet ''k''])) ''a'' None))
          (Num 2) Undefined [Got ''k'' Undefined]]"]
  by (simp add: wm_defs Let_def watched_state_def readers_def watchers_of_def only_reads_def)

text \<open>
  C7 (always fires at registration). When \<^verbatim>\<open>options.always\<close> is truthy and the key
  holds a value \<open>x\<close>, \<^verbatim>\<open>watch\<close> itself calls the callback exactly once, with \<open>x\<close> and
  the entry of the key in the \<^verbatim>\<open>'previous'\<close> map (undefined when there is none),
  whatever the callback then does; with a callback that only reads, the call returns
  after that one call, the watcher registered. \<open>this\<close> of the call is
  \<^verbatim>\<open>options.context\<close> when that is truthy. When the key is absent or \<^verbatim>\<open>always\<close> is falsy
  (or no options are given), \<^verbatim>\<open>watch\<close> registers the watcher and calls nothing.
\<close>

theorem C7_always_fires_at_registration:
  "(truthy (always (resolve opts)) \<and> store s k = Some x
      \<and> watch (call n) k (User (Fn l body)) opts i s = Some (st, s', t) \<longrightarrow>
      fired t = [(k, i, x, case previous s k of None \<Rightarrow> Undefined | Some p \<Rightarrow> p)])
   \<and> (truthy (always (resolve opts)) \<and> store s k = Some x \<and> only_reads body \<longrightarrow>
      watch (call (Suc n)) k (User (Fn l body)) opts i s =
        Some (Ok, register k (User (Fn l body)) opts i s,
          [Call k i l
             (if truthy (ocontext (resolve opts)) then Context (ocontext (resolve opts))
              else NoReceiver)
             x (case previous s k of None \<Rightarrow> Undefined | Some p \<Rightarrow> p)
             (observe_all (register k (User (Fn l body)) opts i s) body)]))
   \<and> (\<not> (truthy (always (resolve opts)) \<and> store s k \<noteq> None) \<longrightarrow>
      watch cl k f opts i s = Some (Ok, register k f opts i s, []))"
proof (intro conjI impI)
  assume a: "truthy (always (resolve opts)) \<and> store s k = Some x
      \<and> watch (call n) k (User (Fn l body)) opts i s = Some (st, s', t)"
  then have "has_wm s k" "get_wm s k = x" by (simp_all add: has_wm_def get_wm_def)
  with a show "fired t = [(k, i, x, case previous s k of None \<Rightarrow> Undefined | Some p \<Rightarrow> p)]"
    by (cases n) (auto simp: watch_def Let_def call_with_eq nest_Some previous_get_def)
next
  assume a: "truthy (always (resolve opts)) \<and> store s k = Some x \<and> only_reads body"
  then have "has_wm s k" "get_wm s k = x" by (simp_all add: has_wm_def get_wm_def)
  with a show "watch (call (Suc n)) k (User (Fn l body)) opts i s =
        Some (Ok, register k (User (Fn l body)) opts i s,
          [Call k i l
             (if truthy (ocontext (resolve opts)) then Context (ocontext (resolve opts))
              else NoReceiver)
             x (case previous s k of None \<Rightarrow> Undefined | Some p \<Rightarrow> p)
             (observe_all (register k (User (Fn l body)) opts i s) body)])"
    by (simp add: watch_def Let_def call_with_eq call_reader this_of_def previous_get_def
        del: call.simps)
next
  assume "\<not> (truthy (always (resolve opts)) \<and> store s k \<noteq> None)"
  then show "watch cl k f opts i s = Some (Ok, register k f opts i s, [])"
    by (auto simp: watch_def Let_def ok_def has_wm_def)
qed

theorem C7_always_fires_at_registration_witness:
  "truthy (always (resolve (Some \<lparr>always = Bool True, ocontext = Undefined\<rparr>)))
   \<and> store twice_set_state ''k'' = Some (Num 2)
   \<and> only_reads [AGet ''k'']
   \<and> watch (call 1) ''k'' (User (Fn 7 [AGet ''k'']))
        (Some \<lparr>always = Bool True, ocontext = Undefined\<rparr>) ''b'' twice_set_state =
      Some (Ok,
        register ''k'' (User (Fn 7 [AGet ''k'']))
          (Some \<lparr>always = Bool True, ocontext = Undefined\<rparr>) ''b'' twice_set_state,
        [Call ''k'' ''b'' 7 NoReceiver (Num 2) (Num 1) [Got ''k'' (Num 2)]])
   \<and> fired [Call ''k'' ''b'' 7 NoReceiver (Num 2) (Num 1) [Got ''k'' (Num 2)]]
        = [(''k'', ''b'', Num 2, Num 1)]
   \<and> truthy (always (resolve (Some \<lparr>always = Num 1, ocontext = Str ''ctx''\<rparr>)))
   \<and> store watched_state ''k'' = Some (Num 1)
   \<and> watch (call 1) ''k'' (User (Fn 7 [AGet ''k'']))
        (Some \<lparr>always = Num 1, ocontext = Str ''ctx''\<rparr>) ''b'' watched_state =
      Some (Ok,
        register ''k'' (User (Fn 7 [AGet ''k'']))
          (Some \<lparr>always = Num 1, ocontext = Str ''ctx''\<rparr>) ''b'' watched_state,
        [Call ''k'' ''b'' 7 (Context (Str ''ctx'')) (Num 1) Undefined [Got ''k'' (Num 1)]])
   \<and> \<not> (truthy (always (resolve None)) \<and> store twice_set_state ''k'' \<noteq> None)
   \<and> watch (call 1) ''k'' (User (Fn 7 [AGet ''k''])) None ''b'' twice_set_state =
      Some (Ok, register ''k'' (User (Fn 7 [AGet ''k''])) None ''b'' twice_set_state, [])
   \<and> \<not> (truthy (always (resolve (Some \<lparr>always = Bool True, ocontext = Undefined\<rparr>)))
         \<and> store empty_map ''k'' \<noteq> None)
   \<and> watch (call 1) ''k'' (User (Fn 7 [AGet ''k'']))
        (Some \<lparr>always = Bool True, ocontext = Undefined\<rparr>) ''b'' empty_map =
      Some (Ok, register ''k'' (User (Fn 7 [AGet ''k'']))
        (Some \<lparr>always = Bool True, ocontext = Undefined\<rparr>) ''b'' empty_map, [])"
proof -
  let ?always = "Some \<lparr>always = Bool True, ocontext = Undefined\<rparr>"
  let ?bound = "Some \<lparr>always = Num 1, ocontext = Str ''ctx''\<rparr>"
  let ?f = "User (Fn 7 [AGet ''k''])"
  let ?t = "[Call ''k'' ''b'' 7 NoReceiver (Num 2) (Num 1) [Got ''k'' (Num 2)]]"
  let ?u = "[Call ''k'' ''b'' 7 (Context (Str ''ctx'')) (Num 1) Undefined [Got ''k'' (Num 1)]]"
  have a: "truthy (always (resolve ?always))" "store twice_set_state ''k'' = Some (Num 2)"
    "only_reads [AGet ''k'']"
    by (simp_all add: resolve_def twice_set_state_def only_reads_def)
  have b: "truthy (always (resolve ?bound))" "store watched_state ''k'' = Some (Num 1)"
    by (simp_all add: resolve_def watched_state_def)
  have q: "\<not> (truthy (always (resolve None)) \<and> store twice_set_state ''k'' \<noteq> None)"
    by (simp add: resolve_def default_options_def)
  have q2: "\<not> (truthy (always (resolve ?always)) \<and> store empty_map ''k'' \<noteq> None)"
    by (simp add: empty_map_def)
  have e: "[Call ''k'' ''b'' 7
        (if truthy (ocontext (resolve ?always)) then Context (ocontext (resolve ?always))
         else NoReceiver)
        (Num 2) (case previous twice_set_state ''k'' of None \<Rightarrow> Undefined | Some p \<Rightarrow> p)
        (observe_all (register ''k'' ?f ?always ''b'' twice_set_state) [AGet ''k''])] = ?t"
    by (simp add: resolve_def get_wm_def observe_all_def twice_set_state_def)
  have e2: "[Call ''k'' ''b'' 7
        (if truthy (ocontext (resolve ?bound)) then Context (ocontext (resolve ?bound))
         else NoReceiver)
        (Num 1) (case previous watched_state ''k'' of None \<Rightarrow> Undefined | Some p \<Rightarrow> p)
        (observe_all (register ''k'' ?f ?bound ''b'' watched_state) [AGet ''k''])] = ?u"
    by (simp add: resolve_def get_wm_def observe_all_def watched_state_def)
  have e3: "[(''k'', ''b'', Num 2,
       case previous twice_set_state ''k'' of None \<Rightarrow> Undefined | Some p \<Rightarrow> p)]
     = [(''k'', ''b'', Num 2, Num 1)]"
    by (simp add: twice_set_state_def)
  note loud = C7_always_fires_at_registration [where k = "''k''" and s = twice_set_state
      and opts = ?always and n = 0 and l = 7 and body = "[AGet ''k'']" and i = "''b''"
      and x = "Num 2"]
  from loud a have w: "watch (call 1) ''k'' ?f ?always ''b'' twice_set_state =
      Some (Ok, register ''k'' ?f ?always ''b'' twice_set_state, ?t)"
    unfolding e One_nat_def by blast
  note once_only = C7_always_fires_at_registration [where k = "''k''" and s = twice_set_state
      and opts = ?always and n = 1 and l = 7 and body = "[AGet ''k'']" and i = "''b''"
      and x = "Num 2" and st = Ok
      and s' = "register ''k'' ?f ?always ''b'' twice_set_state" and t = ?t]
  from once_only a w have c: "fired ?t = [(''k'', ''b'', Num 2, Num 1)]"
    unfolding e3 by blast
  note bound = C7_always_fires_at_registration [where k = "''k''" and s = watched_state
      and opts = ?bound and n = 0 and l = 7 and body = "[AGet ''k'']" and i = "''b''"
      and x = "Num 1"]
  from bound b a(3) have w2: "watch (call 1) ''k'' ?f ?bound ''b'' watched_state =
      Some (Ok, register ''k'' ?f ?bound ''b'' watched_state, ?u)"
    unfolding e2 One_nat_def by blast
  note silent = C7_always_fires_at_registration [where k = "''k''" and s = twice_set_state
      and opts = None and cl = "call 1" and f = ?f and i = "''b''"]
  from silent q have z: "watch (call 1) ''k'' ?f None ''b'' twice_set_state =
      Some (Ok, register ''k'' ?f None ''b'' twice_set_state, [])"
    by blast
  note absent = C7_always_fires_at_registration [where k = "''k''" and s = empty_map
      and opts = ?always and cl = "call 1" and f = ?f and i = "''b''"]
  from absent q2 have z2: "watch (call 1) ''k'' ?f ?always ''b'' empty_map =
      Some (Ok, register ''k'' ?f ?always ''b'' empty_map, [])"
    by blast
  from a w c b w2 q z q2 z2 show ?thesis by (intro conjI)
qed

section \<open>Properties that hold in an amended form\<close>




text \<open>
  C5 (cancelling a watcher during a firing pass). What the code does at the input. The
  key has the watchers \<open>a\<close> and \<open>c\<close>. When \<open>a\<close> is called it unwatches itself,
  registers \<open>b\<close>, sets the key to 2 and unwatches \<open>b\<close>; when \<open>b\<close> is called it
  cancels \<open>c\<close>. During \<^verbatim>\<open>set('k', 1)\<close> the inner pass, of \<^verbatim>\<open>set('k', 2)\<close>, calls
  \<open>c\<close> and then \<open>b\<close>, which cancels \<open>c\<close>. After that pass has ended, the outer
  pass, which walks the array it started on, calls \<open>c\<close> with \<open>(1, undefined)\<close>.
\<close>

theorem C5_called_after_the_pass:
  "trace_of (run 2 [AWatch ''k'' (Fn 1 [AUnwatch ''k'' ''a'',
          AWatch ''k'' (Fn 2 [AUnwatch ''k'' ''c'']) None ''b'', ASet ''k'' (Num 2),
          AUnwatch ''k'' ''b'']) None ''a'',
       AWatch ''k'' (Fn 3 []) None ''c'',
       ASet ''k'' (Num 1)] empty_map)
   = Some (Ok,
      [Registered ''k'' ''a'', Registered ''k'' ''c'',
       SetCalled ''k'' (Num 1)
         [Call ''k'' ''a'' 1
            (Record (new_record (User (Fn 1 [AUnwatch ''k'' ''a'',
               AWatch ''k'' (Fn 2 [AUnwatch ''k'' ''c'']) None ''b'', ASet ''k'' (Num 2),
               AUnwatch ''k'' ''b''])) ''a'' None))
            (Num 1) Undefined
            [Unwatched ''k'' ''a'', Registered ''k'' ''b'',
             SetCalled ''k'' (Num 2)
               [Call ''k'' ''c'' 3 (Record (new_record (User (Fn 3 [])) ''c'' None))
                  (Num 2) Undefined [],
                Call ''k'' ''b'' 2
                  (Record (new_record (User (Fn 2 [AUnwatch ''k'' ''c''])) ''b'' None))
                  (Num 2) Undefined [Unwatched ''k'' ''c'']],
             Unwatched ''k'' ''b''],
          Call ''k'' ''c'' 3 (Record (new_record (User (Fn 3 [])) ''c'' None))
            (Num 1) Undefined []]])"
  by (simp add: wm_defs Let_def eval_nat_numeral)

text \<open>
  The id of a cancelled watcher must not be drawn again for the key: here it is, and
  the pass of a later \<^verbatim>\<open>set\<close> calls the watcher of that id.
\<close>

lemma redraw_calls_again:
  "trace_of (run 1 [AWatch ''k'' (Fn 0 []) None ''i'', AUnwatch ''k'' ''i'',
       AWatch ''k'' (Fn 0 []) None ''i'', ASet ''k'' (Num 1)] empty_map)
   = Some (Ok,
      [Registered ''k'' ''i'', Unwatched ''k'' ''i'', Registered ''k'' ''i'',
       SetCalled ''k'' (Num 1)
         [Call ''k'' ''i'' 0 (Record (new_record (User (Fn 0 [])) ''i'' None))
            (Num 1) Undefined []]])
   \<and> redrawn ''k'' ''i'' False
      [Registered ''k'' ''i'', Unwatched ''k'' ''i'', Registered ''k'' ''i'',
       SetCalled ''k'' (Num 1)
         [Call ''k'' ''i'' 0 (Record (new_record (User (Fn 0 [])) ''i'' None))
            (Num 1) Undefined []]]
   \<and> \<not> no_late_call ''k'' ''i'' False False
      [Registered ''k'' ''i'', Unwatched ''k'' ''i'', Registered ''k'' ''i'',
       SetCalled ''k'' (Num 1)
         [Call ''k'' ''i'' 0 (Record (new_record (User (Fn 0 [])) ''i'' None))
            (Num 1) Undefined []]]"
  by (simp add: wm_defs Let_def)

text \<open>
  C5, amended. The unwatch function of the watcher \<open>i\<close> of \<open>k\<close> takes its record out
  of the registry at once. In every program that returns, from every state, no firing
  pass that starts after the unwatch function was called, whether by a later
  \<^verbatim>\<open>set\<close> of the program or by a \<^verbatim>\<open>set\<close> that a callback makes, calls that
  watcher, and the watcher is out of the registry at the end, as long as no call of
  \<^verbatim>\<open>watch\<close> or \<^verbatim>\<open>once\<close> on \<open>k\<close> draws the id \<open>i\<close> after the cancellation. The
  passes in progress when the unwatch function is called (the pass that called the
  cancelling callback, and the passes around it) walk the arrays they started on and may
  still call the watcher. Every pass that returns has called each watcher that was
  registered on the key when it started exactly once, in the order of registration, with
  \<open>(v, oldValue)\<close>, whatever the callbacks cancelled or registered meanwhile; and a
  pass returns when the callbacks of the key only call unwatch functions, \<^verbatim>\<open>get\<close>,
  \<^verbatim>\<open>countWatchers\<close>, \<^verbatim>\<open>delete\<close> or \<^verbatim>\<open>clear\<close>.
\<close>

theorem C5_cancel_during_pass:
  "unregistered k i (unwatch (k, i) s)
   \<and> (fire (call n) k v s = Some (Ok, s', t) \<longrightarrow>
      fired t = map (\<lambda>w. (k, wid w, v, case store s k of None \<Rightarrow> Undefined | Some x \<Rightarrow> x))
                  (watchers_of s k))
   \<and> (run n p s = Some (st, s2, t2) \<and> \<not> redrawn k i False t2 \<longrightarrow>
      no_late_call k i False False t2 \<and> (cancelled k i t2 \<longrightarrow> unregistered k i s2))
   \<and> (cancellers s k \<longrightarrow>
      (\<exists>s3 t3. fire (call (Suc n)) k v s = Some (Ok, s3, t3)
         \<and> fired t3 = map (\<lambda>w. (k, wid w, v, case store s k of None \<Rightarrow> Undefined | Some x \<Rightarrow> x))
                      (watchers_of s k)))"
proof (intro conjI impI)
  show "unregistered k i (unwatch (k, i) s)" by (simp add: unregistered_unwatch)
next
  assume "fire (call n) k v s = Some (Ok, s', t)"
  from fire_fired [OF this]
  show "fired t = map (\<lambda>w. (k, wid w, v, case store s k of None \<Rightarrow> Undefined | Some x \<Rightarrow> x))
      (watchers_of s k)"
    by (simp add: get_wm_def)
next
  assume a: "run n p s = Some (st, s2, t2) \<and> \<not> redrawn k i False t2"
  with run_sound [of n p s st s2 t2 k i]
  show "no_late_call k i False False t2" by blast
  from a run_sound [of n p s st s2 t2 k i]
  show "unregistered k i s2" if "cancelled k i t2" using that by blast
next
  assume "cancellers s k"
  from fire_cancellers [OF this, of n v] obtain s3 t3 where
    r: "fire (call (Suc n)) k v s = Some (Ok, s3, t3)" by blast
  from fire_fired [OF r] r
  show "\<exists>s3 t3. fire (call (Suc n)) k v s = Some (Ok, s3, t3)
      \<and> fired t3 = map (\<lambda>w. (k, wid w, v, case store s k of None \<Rightarrow> Undefined | Some x \<Rightarrow> x))
          (watchers_of s k)"
    by (simp add: get_wm_def)
qed

theorem C5_cancel_during_pass_witness:
  "fire (call 1) ''k'' (Num 1) cancelling_state =
      Some (Ok, unwatch (''k'', ''c'') cancelling_state,
        [Call ''k'' ''a'' 1 (Record (new_record (User (Fn 1 [AUnwatch ''k'' ''c''])) ''a'' None))
           (Num 1) Undefined [Unwatched ''k'' ''c''],
         Call ''k'' ''b'' 2 (Record (new_record (User (Fn 2 [])) ''b'' None))
           (Num 1) Undefined [],
         Call ''k'' ''c'' 3 (Record (new_record (User (Fn 3 [])) ''c'' None))
           (Num 1) Undefined []])
   \<and> fired
        [Call ''k'' ''a'' 1 (Record (new_record (User (Fn 1 [AUnwatch ''k'' ''c''])) ''a'' None))
           (Num 1) Undefined [Unwatched ''k'' ''c''],
         Call ''k'' ''b'' 2 (Record (new_record (User (Fn 2 [])) ''b'' None))
           (Num 1) Undefined [],
         Call ''k'' ''c'' 3 (Record (new_record (User (Fn 3 [])) ''c'' None))
           (Num 1) Undefined []]
        = [(''k'', ''a'', Num 1, Undefined), (''k'', ''b'', Num 1, Undefined),
           (''k'', ''c'', Num 1, Undefined)]
   \<and> cancellers cancelling_state ''k''
   \<and> (\<exists>s3 t3. fire (call 1) ''k'' (Num 1) cancelling_state = Some (Ok, s3, t3)
         \<and> fired t3 = [(''k'', ''a'', Num 1, Undefined), (''k'', ''b'', Num 1, Undefined),
             (''k'', ''c'', Num 1, Undefined)])
   \<and> (\<exists>s2. run 2 [AWatch ''k'' (Fn 1 [AUnwatch ''k'' ''a'', AUnwatch ''k'' ''c'',
             ASet ''k'' (Num 2)]) None ''a'',
           AWatch ''k'' (Fn 2 []) None ''b'', AWatch ''k'' (Fn 3 []) None ''c'',
           ASet ''k'' (Num 1), ASet ''k'' (Num 3)] empty_map =
        Some (Ok, s2,
          [Registered ''k'' ''a'', Registered ''k'' ''b'', Registered ''k'' ''c'',
           SetCalled ''k'' (Num 1)
             [Call ''k'' ''a'' 1
                (Record (new_record (User (Fn 1 [AUnwatch ''k'' ''a'', AUnwatch ''k'' ''c'',
                   ASet ''k'' (Num 2)])) ''a'' None))
                (Num 1) Undefined
                [Unwatched ''k'' ''a'', Unwatched ''k'' ''c'',
                 SetCalled ''k'' (Num 2)
                   [Call ''k'' ''b'' 2 (Record (new_record (User (Fn 2 [])) ''b'' None))
                      (Num 2) Undefined []]],
              Call ''k'' ''b'' 2 (Record (new_record (User (Fn 2 [])) ''b'' None))
                (Num 1) Undefined [],
              Call ''k'' ''c'' 3 (Record (new_record (User (Fn 3 [])) ''c'' None))
                (Num 1) Undefined []],
           SetCalled ''k'' (Num 3)
             [Call ''k'' ''b'' 2 (Record (new_record (User (Fn 2 [])) ''b'' None))
                (Num 3) (Num 1) []]])
        \<and> unregistered ''k'' ''c'' s2)
   \<and> no_late_call ''k'' ''c'' False False
          [Registered ''k'' ''a'', Registered ''k'' ''b'', Registered ''k'' ''c'',
           SetCalled ''k'' (Num 1)
             [Call ''k'' ''a'' 1
                (Record (new_record (User (Fn 1 [AUnwatch ''k'' ''a'', AUnwatch ''k'' ''c'',
                   ASet ''k'' (Num 2)])) ''a'' None))
                (Num 1) Undefined
                [Unwatched ''k'' ''a'', Unwatched ''k'' ''c'',
                 SetCalled ''k'' (Num 2)
                   [Call ''k'' ''b'' 2 (Record (new_record (User (Fn 2 [])) ''b'' None))
                      (Num 2) Undefined []]],
              Call ''k'' ''b'' 2 (Record (new_record (User (Fn 2 [])) ''b'' None))
                (Num 1) Undefined [],
              Call ''k'' ''c'' 3 (Record (new_record (User (Fn 3 [])) ''c'' None))
                (Num 1) Undefined []],
           SetCalled ''k'' (Num 3)
             [Call ''k'' ''b'' 2 (Record (new_record (User (Fn 2 [])) ''b'' None))
                (Num 3) (Num 1) []]]"
proof -
  let ?t = "[Call ''k'' ''a'' 1 (Record (new_record (User (Fn 1 [AUnwatch ''k'' ''c''])) ''a'' None))
           (Num 1) Undefined [Unwatched ''k'' ''c''],
         Call ''k'' ''b'' 2 (Record (new_record (User (Fn 2 [])) ''b'' None))
           (Num 1) Undefined [],
         Call ''k'' ''c'' 3 (Record (new_record (User (Fn 3 [])) ''c'' None))
           (Num 1) Undefined []]"
  let ?fired = "[(''k'', ''a'', Num 1, Undefined), (''k'', ''b'', Num 1, Undefined),
           (''k'', ''c'', Num 1, Undefined)]"
  let ?p = "[AWatch ''k'' (Fn 1 [AUnwatch ''k'' ''a'', AUnwatch ''k'' ''c'',
             ASet ''k'' (Num 2)]) None ''a'',
           AWatch ''k'' (Fn 2 []) None ''b'', AWatch ''k'' (Fn 3 []) None ''c'',
           ASet ''k'' (Num 1), ASet ''k'' (Num 3)]"
  let ?t2 = "[Registered ''k'' ''a'', Registered ''k'' ''b'', Registered ''k'' ''c'',
           SetCalled ''k'' (Num 1)
             [Call ''k'' ''a'' 1
                (Record (new_record (User (Fn 1 [AUnwatch ''k'' ''a'', AUnwatch ''k'' ''c'',
                   ASet ''k'' (Num 2)])) ''a'' None))
                (Num 1) Undefined
                [Unwatched ''k'' ''a'', Unwatched ''k'' ''c'',
                 SetCalled ''k'' (Num 2)
                   [Call ''k'' ''b'' 2 (Record (new_record (User (Fn 2 [])) ''b'' None))
                      (Num 2) Undefined []]],
              Call ''k'' ''b'' 2 (Record (new_record (User (Fn 2 [])) ''b'' None))
                (Num 1) Undefined [],
              Call ''k'' ''c'' 3 (Record (new_record (User (Fn 3 [])) ''c'' None))
                (Num 1) Undefined []],
           SetCalled ''k'' (Num 3)
             [Call ''k'' ''b'' 2 (Record (new_record (User (Fn 2 [])) ''b'' None))
                (Num 3) (Num 1) []]]"
  let ?s = "unwatch (''k'', ''c'') cancelling_state"
  have f: "fire (call 1) ''k'' (Num 1) cancelling_state = Some (Ok, ?s, ?t)"
    by (simp add: wm_defs Let_def cancelling_state_def)
  have m: "map (\<lambda>w. (''k'', wid w, Num 1,
        case store cancelling_state ''k'' of None \<Rightarrow> Undefined | Some x \<Rightarrow> x))
      (watchers_of cancelling_state ''k'') = ?fired"
    by (simp add: watchers_of_def cancelling_state_def)
  have cs: "cancellers cancelling_state ''k''"
    by (simp add: cancellers_def watchers_of_def cancelling_state_def)
  have "trace_of (run 2 ?p empty_map) = Some (Ok, ?t2)"
    by (simp add: wm_defs Let_def eval_nat_numeral)
  then obtain s2 where r: "run 2 ?p empty_map = Some (Ok, s2, ?t2)"
    unfolding trace_of_Some by blast
  have nr: "\<not> redrawn ''k'' ''c'' False ?t2" by simp
  have cd: "cancelled ''k'' ''c'' ?t2" by simp
  note pass = C5_cancel_during_pass [where k = "''k''" and i = "''c''" and n = 1
      and v = "Num 1" and s = cancelling_state and s' = ?s and t = ?t]
  note ret = C5_cancel_during_pass [where k = "''k''" and i = "''c''" and n = 0
      and v = "Num 1" and s = cancelling_state]
  note later = C5_cancel_during_pass [where k = "''k''" and i = "''c''" and n = 2
      and s = empty_map and p = ?p and st = Ok and ?s2.0 = s2 and ?t2.0 = ?t2]
  from pass f have c1: "fired ?t = ?fired" unfolding m by blast
  from ret cs have c2: "\<exists>s3 t3. fire (call 1) ''k'' (Num 1) cancelling_state = Some (Ok, s3, t3)
      \<and> fired t3 = ?fired" unfolding m One_nat_def by blast
  from later r nr have c3: "no_late_call ''k'' ''c'' False False ?t2" by blast
  from later r nr cd have c4: "unregistered ''k'' ''c'' s2" by blast
  from r c4 have c5: "\<exists>s2. run 2 ?p empty_map = Some (Ok, s2, ?t2) \<and> unregistered ''k'' ''c'' s2"
    by blast
  from f c1 cs c2 c5 c3 show ?thesis by (intro conjI)
qed

lemma countWatchers_register:
  "countWatchers (register k f opts i s) j =
     (if j = k then Suc (countWatchers s k) else countWatchers s j)"
  by (simp add: countWatchers_length watchers_of_register)

lemma countWatchers_unwatch_other:
  "j \<noteq> k \<Longrightarrow> countWatchers (unwatch (k, i) s) j = countWatchers s j"
  by (simp add: countWatchers_length watchers_of_unwatch)

lemma length_filter_split:
  "length (filter (\<lambda>w. wid w \<noteq> i) ws) + length (filter (\<lambda>w. wid w = i) ws) = length ws"
  by (induction ws) auto

lemma filter_fresh: "i \<notin> set (map wid ws) \<Longrightarrow> filter (\<lambda>w. wid w \<noteq> i) ws = ws"
  by (induction ws) auto

lemma countWatchers_update [simp]:
  "countWatchers (s\<lparr>previous := p\<rparr>) = countWatchers s"
  "countWatchers (s\<lparr>store := m\<rparr>) = countWatchers s"
  "countWatchers (s\<lparr>cells := c\<rparr>) = countWatchers s"
  "countWatchers (s\<lparr>next_cell := n\<rparr>) = countWatchers s"
  "countWatchers (declare_unwatch s) = countWatchers s"
  by (simp_all add: countWatchers_def declare_unwatch_def fun_eq_iff)

lemma has_dud_update [simp]:
  "has_dud (s\<lparr>store := m\<rparr>) k = has_dud s k"
  "has_dud (s\<lparr>cells := c\<rparr>) k = has_dud s k"
  "has_dud (declare_unwatch s) k = has_dud s k"
  by (simp_all add: has_dud_def)


lemma watch_quietly:
  "\<not> (truthy (always (resolve opts)) \<and> has_wm s k) \<Longrightarrow>
   watch cl k f opts i s = Some (Ok, register k f opts i s, [])"
  by (auto simp: watch_def Let_def ok_def)

lemma once_quietly:
  "\<not> (truthy (always (resolve opts)) \<and> has_wm s k) \<Longrightarrow>
   once cl k cb opts i s =
     Some (Ok, (register k (OnceWrapper cb opts (next_cell s)) opts i (declare_unwatch s))
               \<lparr>cells := (cells s)(next_cell s \<mapsto> (k, i))\<rparr>, [])"
  by (simp add: once_def Let_def watch_quietly and_then_def ok_def has_wm_def)
     (simp add: register_def declare_unwatch_def Let_def)

lemma once_dud_state_reached:
  "once cl ''k'' (NotCallable (Num 5)) None ''b'' watched_state = Some (Ok, once_dud_state, [])"
  by (simp add: wm_defs Let_def watched_state_def once_dud_state_def)




lemma once_immediate:
  assumes a: "truthy (always (resolve opts))" and h: "has_wm s k" and b: "only_reads body"
    and f: "i \<notin> set (map wid (watchers_of s k))"
  shows "\<exists>s' t. once (call (Suc (Suc n))) k (Fn l body) opts i s = Some (Ok, s', t)
           \<and> fired t = [(k, i, get_wm s k, previous_get s k)]
           \<and> watchers_of s' = watchers_of s"
proof -
  define W where "W = OnceWrapper (Fn l body) opts (next_cell s)"
  define s0 where "s0 = declare_unwatch s"
  define s1 where "s1 = register k W opts i s0"
  define ev where "ev = Call k i l (this_of (ocontext (resolve opts))) (get_wm s1 k)
      (previous_get s1 k) (observe_all s1 body)"
  have c1: "cells s1 (next_cell s) = None"
    by (simp add: s1_def s0_def register_def declare_unwatch_def Let_def)
  have u: "call (Suc n) (User (Fn l body)) k i (this_of (ocontext (resolve opts)))
      (get_wm s1 k) (previous_get s1 k) None s1 = Some (Ok, s1, [ev])"
    unfolding ev_def by (rule call_reader [OF b])
  have "call (Suc (Suc n)) W k i th (get_wm s1 k) (previous_get s1 k) (Some (k, i)) s1
      = Some (Ok, unwatch (k, i) s1, [ev, Unwatched k i])" for th
    unfolding W_def call.simps(2) [of "Suc n"] fn.case call_with_eq u
    by (simp add: and_then_def retire_def c1 ok_def)
  then have w: "watch (call (Suc (Suc n))) k W opts i s0 =
      Some (Ok, unwatch (k, i) s1, [ev, Unwatched k i])"
    using a h unfolding watch_def Let_def s1_def [symmetric] call_with_eq
    by (simp add: s1_def s0_def has_wm_def del: call.simps)
  have o: "once (call (Suc (Suc n))) k (Fn l body) opts i s =
      Some (Ok, (unwatch (k, i) s1)\<lparr>cells := (cells (unwatch (k, i) s1))(next_cell s \<mapsto> (k, i))\<rparr>,
        [ev, Unwatched k i])"
    unfolding once_def Let_def W_def [symmetric] s0_def [symmetric] w
    by (simp add: and_then_def ok_def)
  have "watchers_of (unwatch (k, i) s1) j = watchers_of s j" for j
    using f by (simp add: watchers_of_unwatch s1_def s0_def watchers_of_register filter_fresh)
  then have ws: "watchers_of ((unwatch (k, i) s1)\<lparr>cells := m\<rparr>) = watchers_of s" for m
    by (simp add: fun_eq_iff)
  have "fired [ev] = [(k, i, get_wm s k, previous_get s k)]"
    by (simp add: ev_def s1_def s0_def get_wm_def previous_get_def)
  with o ws show ?thesis by simp
qed

text \<open>
  C8 (countWatchers counts the watchers). What the code does at the input: the key is
  set, a \<^verbatim>\<open>once\<close> with \<^verbatim>\<open>always\<close> fires at registration and retires itself, and
  \<^verbatim>\<open>countWatchers\<close> is 0 after the call of \<^verbatim>\<open>once\<close> as it was before.
\<close>

theorem C8_once_always_adds_no_watcher:
  "trace_of (run 2 [ASet ''k'' (Num 1), ACount ''k'',
       AOnce ''k'' (Fn 0 []) (Some \<lparr>always = Bool True, ocontext = Undefined\<rparr>) ''a'',
       ACount ''k''] empty_map)
   = Some (Ok,
      [SetCalled ''k'' (Num 1) [], Counted ''k'' 0, Registered ''k'' ''a'',
       Call ''k'' ''a'' 0 NoReceiver (Num 1) Undefined [], Unwatched ''k'' ''a'',
       Counted ''k'' 0])"
  by (simp add: wm_defs Let_def eval_nat_numeral)

text \<open>
  C8, amended. \<^verbatim>\<open>countWatchers(k)\<close> is the length of the watcher array of \<open>k\<close>, and 0
  for a key never watched. A call of \<^verbatim>\<open>watch\<close> on \<open>k\<close> adds one (when it fires at
  registration: for a callback that only reads). A call of \<^verbatim>\<open>once\<close> on \<open>k\<close> adds one
  when it does not fire at registration; when it does (\<^verbatim>\<open>always\<close> truthy, key present,
  a callback that only reads, an id not used on \<open>k\<close>) it retires at once and the count
  is as before. Cancelling a watcher whose id is registered once on \<open>k\<close> takes one
  away. None of these calls changes the count of another key, and a call of
  \<^verbatim>\<open>countWatchers\<close> leaves the state as it is.
\<close>

theorem C8_countWatchers_counts:
  "countWatchers s k = length (watchers_of s k)
   \<and> countWatchers empty_map k = 0
   \<and> (\<not> (truthy (always (resolve opts)) \<and> has_wm s k) \<longrightarrow>
        (\<exists>s'. watch cl k f opts i s = Some (Ok, s', [])
           \<and> countWatchers s' k = Suc (countWatchers s k)
           \<and> (j \<noteq> k \<longrightarrow> countWatchers s' j = countWatchers s j))
        \<and> (\<exists>s'. once cl k cb opts i s = Some (Ok, s', [])
           \<and> countWatchers s' k = Suc (countWatchers s k)
           \<and> (j \<noteq> k \<longrightarrow> countWatchers s' j = countWatchers s j)))
   \<and> (only_reads body \<longrightarrow>
        (\<exists>s' t. watch (call (Suc n)) k (User (Fn l body)) opts i s = Some (Ok, s', t)
           \<and> countWatchers s' k = Suc (countWatchers s k)
           \<and> (j \<noteq> k \<longrightarrow> countWatchers s' j = countWatchers s j)))
   \<and> (truthy (always (resolve opts)) \<and> has_wm s k \<and> only_reads body
        \<and> i \<notin> set (map wid (watchers_of s k)) \<longrightarrow>
        (\<exists>s' t. once (call (Suc (Suc n))) k (Fn l body) opts i s = Some (Ok, s', t)
           \<and> countWatchers s' k = countWatchers s k
           \<and> countWatchers s' j = countWatchers s j))
   \<and> (length (filter (\<lambda>w. wid w = i) (watchers_of s k)) = 1 \<longrightarrow>
        Suc (countWatchers (unwatch (k, i) s) k) = countWatchers s k)
   \<and> (j \<noteq> k \<longrightarrow> countWatchers (unwatch (k, i) s) j = countWatchers s j)
   \<and> do_action cl (ACount k) s = Some (Ok, s, [Counted k (countWatchers s k)])"
proof (intro conjI impI)
  show "do_action cl (ACount k) s = Some (Ok, s, [Counted k (countWatchers s k)])"
    by (simp add: do_action_def)
  show "countWatchers s k = length (watchers_of s k)" by (rule countWatchers_length)
  show "countWatchers empty_map k = 0" by (simp add: countWatchers_def empty_map_def)
next
  assume q: "\<not> (truthy (always (resolve opts)) \<and> has_wm s k)"
  show "\<exists>s'. watch cl k f opts i s = Some (Ok, s', [])
      \<and> countWatchers s' k = Suc (countWatchers s k)
      \<and> (j \<noteq> k \<longrightarrow> countWatchers s' j = countWatchers s j)"
    unfolding watch_quietly [OF q] by (simp add: countWatchers_register)
  show "\<exists>s'. once cl k cb opts i s = Some (Ok, s', [])
      \<and> countWatchers s' k = Suc (countWatchers s k)
      \<and> (j \<noteq> k \<longrightarrow> countWatchers s' j = countWatchers s j)"
    unfolding once_quietly [OF q] by (simp add: countWatchers_register)
next
  assume b: "only_reads body"
  have "watch (call (Suc n)) k (User (Fn l body)) opts i s =
      Some (Ok, register k (User (Fn l body)) opts i s,
        if truthy (always (resolve opts)) \<and> has_wm s k
        then [Call k i l (this_of (ocontext (resolve opts))) (get_wm s k) (previous_get s k)
               (observe_all (register k (User (Fn l body)) opts i s) body)]
        else [])"
    by (simp add: watch_def Let_def call_with_eq call_reader [OF b] ok_def del: call.simps)
  then show "\<exists>s' t. watch (call (Suc n)) k (User (Fn l body)) opts i s = Some (Ok, s', t)
      \<and> countWatchers s' k = Suc (countWatchers s k)
      \<and> (j \<noteq> k \<longrightarrow> countWatchers s' j = countWatchers s j)"
    by (simp add: countWatchers_register)
next
  assume "truthy (always (resolve opts)) \<and> has_wm s k \<and> only_reads body
      \<and> i \<notin> set (map wid (watchers_of s k))"
  then have a: "truthy (always (resolve opts))" and h: "has_wm s k" and b: "only_reads body"
    and f: "i \<notin> set (map wid (watchers_of s k))"
    by simp_all
  from once_immediate [OF a h b f, of n l] obtain s' t where
    "once (call (Suc (Suc n))) k (Fn l body) opts i s = Some (Ok, s', t)"
    "watchers_of s' = watchers_of s" by blast
  then show "\<exists>s' t. once (call (Suc (Suc n))) k (Fn l body) opts i s = Some (Ok, s', t)
      \<and> countWatchers s' k = countWatchers s k \<and> countWatchers s' j = countWatchers s j"
    by (simp add: countWatchers_length)
next
  assume "length (filter (\<lambda>w. wid w = i) (watchers_of s k)) = 1"
  with length_filter_split [of i "watchers_of s k"]
  show "Suc (countWatchers (unwatch (k, i) s) k) = countWatchers s k"
    by (simp add: countWatchers_length watchers_of_unwatch)
next
  assume "j \<noteq> k"
  then show "countWatchers (unwatch (k, i) s) j = countWatchers s j"
    by (rule countWatchers_unwatch_other)
qed

theorem C8_countWatchers_counts_witness:
  "\<not> (truthy (always (resolve None)) \<and> has_wm watched_state ''k'')
   \<and> (\<exists>s'. watch (call 1) ''k'' (User (Fn 1 [])) None ''b'' watched_state = Some (Ok, s', [])
         \<and> countWatchers s' ''k'' = Suc (countWatchers watched_state ''k'')
         \<and> countWatchers s' ''j'' = countWatchers watched_state ''j'')
   \<and> (\<exists>s'. once (call 1) ''k'' (Fn 1 []) None ''b'' watched_state = Some (Ok, s', [])
         \<and> countWatchers s' ''k'' = Suc (countWatchers watched_state ''k'')
         \<and> countWatchers s' ''j'' = countWatchers watched_state ''j'')
   \<and> only_reads []
   \<and> truthy (always (resolve (Some \<lparr>always = Bool True, ocontext = Undefined\<rparr>)))
   \<and> has_wm watched_state ''k''
   \<and> ''b'' \<notin> set (map wid (watchers_of watched_state ''k''))
   \<and> (\<exists>s' t. watch (call (Suc 0)) ''k'' (User (Fn 1 []))
           (Some \<lparr>always = Bool True, ocontext = Undefined\<rparr>) ''b'' watched_state
           = Some (Ok, s', t)
         \<and> countWatchers s' ''k'' = Suc (countWatchers watched_state ''k''))
   \<and> (\<exists>s' t. once (call (Suc (Suc 0))) ''k'' (Fn 1 [])
           (Some \<lparr>always = Bool True, ocontext = Undefined\<rparr>) ''b'' watched_state
           = Some (Ok, s', t)
         \<and> countWatchers s' ''k'' = countWatchers watched_state ''k''
         \<and> countWatchers s' ''j'' = countWatchers watched_state ''j'')
   \<and> length (filter (\<lambda>w. wid w = ''a'') (watchers_of watched_state ''k'')) = 1
   \<and> Suc (countWatchers (unwatch (''k'', ''a'') watched_state) ''k'')
        = countWatchers watched_state ''k''
   \<and> ''j'' \<noteq> ''k''
   \<and> countWatchers (unwatch (''k'', ''a'') watched_state) ''j'' = countWatchers watched_state ''j''
   \<and> countWatchers watched_state ''k'' = 1"
proof -
  let ?always = "Some \<lparr>always = Bool True, ocontext = Undefined\<rparr>"
  have q: "\<not> (truthy (always (resolve None)) \<and> has_wm watched_state ''k'')"
    by (simp add: resolve_def default_options_def)
  have a: "truthy (always (resolve ?always))" "has_wm watched_state ''k''" "only_reads []"
    "''b'' \<notin> set (map wid (watchers_of watched_state ''k''))"
    "length (filter (\<lambda>w. wid w = ''a'') (watchers_of watched_state ''k'')) = 1"
    "''j'' \<noteq> ''k''"
    by (simp_all add: resolve_def has_wm_def watched_state_def watchers_of_def only_reads_def)
  have n: "countWatchers watched_state ''k'' = 1"
    by (simp add: countWatchers_def watched_state_def)
  note quiet = C8_countWatchers_counts [where k = "''k''" and s = watched_state
      and j = "''j''" and opts = None and cl = "call 1" and f = "User (Fn 1 [])"
      and cb = "Fn 1 []" and i = "''b''" and body = "[]" and l = 1 and n = 0]
  note loud = C8_countWatchers_counts [where k = "''k''" and s = watched_state
      and j = "''j''" and opts = ?always and cl = "call 1" and f = "User (Fn 1 [])"
      and cb = "Fn 1 []" and i = "''b''" and body = "[]" and l = 1 and n = 0]
  note cancel = C8_countWatchers_counts [where k = "''k''" and s = watched_state
      and j = "''j''" and opts = None and cl = "call 1" and f = "User (Fn 1 [])"
      and cb = "Fn 1 []" and i = "''a''" and body = "[]" and l = 1 and n = 0]
  from quiet q a(6) have c1:
    "\<exists>s'. watch (call 1) ''k'' (User (Fn 1 [])) None ''b'' watched_state = Some (Ok, s', [])
         \<and> countWatchers s' ''k'' = Suc (countWatchers watched_state ''k'')
         \<and> countWatchers s' ''j'' = countWatchers watched_state ''j''"
    and c2:
    "\<exists>s'. once (call 1) ''k'' (Fn 1 []) None ''b'' watched_state = Some (Ok, s', [])
         \<and> countWatchers s' ''k'' = Suc (countWatchers watched_state ''k'')
         \<and> countWatchers s' ''j'' = countWatchers watched_state ''j''"
    by blast+
  from loud a(3) have c3:
    "\<exists>s' t. watch (call (Suc 0)) ''k'' (User (Fn 1 [])) ?always ''b'' watched_state
           = Some (Ok, s', t)
         \<and> countWatchers s' ''k'' = Suc (countWatchers watched_state ''k'')"
    by blast
  from loud a have c4:
    "\<exists>s' t. once (call (Suc (Suc 0))) ''k'' (Fn 1 []) ?always ''b'' watched_state
           = Some (Ok, s', t)
         \<and> countWatchers s' ''k'' = countWatchers watched_state ''k''
         \<and> countWatchers s' ''j'' = countWatchers watched_state ''j''"
    by blast
  from cancel a(5,6) have c5:
    "Suc (countWatchers (unwatch (''k'', ''a'') watched_state) ''k'')
        = countWatchers watched_state ''k''"
    "countWatchers (unwatch (''k'', ''a'') watched_state) ''j'' = countWatchers watched_state ''j''"
    by blast+
  from q a n c1 c2 c3 c4 c5 show ?thesis by (intro conjI)
qed

text \<open>
  C3 (watchers run before the value is stored). What the code does at the input: two
  watchers on \<^verbatim>\<open>'k'\<close>, which holds 1; the first deletes the key, the second reads it.
  During \<^verbatim>\<open>set('k', 2)\<close> the second watcher is called with \<open>oldValue = 1\<close> and its
  \<^verbatim>\<open>get('k')\<close> returns undefined, not the value the key held before the set.
\<close>

theorem C3_later_watcher_sees_delete:
  "trace_of (run 1 [ASet ''k'' (Num 1),
       AWatch ''k'' (Fn 1 [ADelete ''k'']) None ''a'',
       AWatch ''k'' (Fn 2 [AGet ''k'']) None ''b'',
       ASet ''k'' (Num 2)] empty_map)
   = Some (Ok,
       [SetCalled ''k'' (Num 1) [], Registered ''k'' ''a'', Registered ''k'' ''b'',
        SetCalled ''k'' (Num 2)
          [Call ''k'' ''a'' 1 (Record (new_record (User (Fn 1 [ADelete ''k''])) ''a'' None))
             (Num 2) (Num 1) [Deleted ''k'' True],
           Call ''k'' ''b'' 2 (Record (new_record (User (Fn 2 [AGet ''k''])) ''b'' None))
             (Num 2) (Num 1) [Got ''k'' Undefined]]])"
  by (simp add: wm_defs Let_def)

text \<open>
  C3, amended. \<^verbatim>\<open>set(k, v)\<close> stores \<open>v\<close> after the last watcher has returned: a
  \<^verbatim>\<open>set\<close> that returns normally has called every watcher of \<open>k\<close> and leaves \<open>v\<close> in
  the store, and one that throws does not store \<open>v\<close>. Every \<^verbatim>\<open>get(k)\<close> made while the
  watchers run, at any depth, before the first call by a callback of \<^verbatim>\<open>set\<close> or
  \<^verbatim>\<open>delete\<close> on \<open>k\<close> or of \<^verbatim>\<open>clear\<close>, returns the value \<open>k\<close> held before the
  \<^verbatim>\<open>set\<close> (undefined when it was absent); when no callback makes such a call during the
  pass, these are all the reads of \<open>k\<close>. A \<^verbatim>\<open>delete\<close> or a \<^verbatim>\<open>clear\<close> by a callback takes
  effect at once: the key is absent in the state it returns. The \<^verbatim>\<open>set\<close> does return
  when the watchers of \<open>k\<close> only read.
\<close>

theorem C3_watchers_see_old_value:
  "(set_wm (call n) k v s = Some (st, s', t) \<longrightarrow>
      list_all (\<lambda>y. y = (case store s k of None \<Rightarrow> Undefined | Some x \<Rightarrow> x)) (early_reads k t)
      \<and> (\<not> touched k t \<longrightarrow> early_reads k t = all_reads k t)
      \<and> (st = Ok \<longrightarrow> store s' k = Some v
            \<and> fired t = map (\<lambda>w. (k, wid w, v, case store s k of None \<Rightarrow> Undefined | Some x \<Rightarrow> x))
                        (watchers_of s k))
      \<and> (st \<noteq> Ok \<and> \<not> touched k t \<longrightarrow> store s' k = store s k))
   \<and> store (snd (delete_wm k s)) k = None
   \<and> store (clear_wm s) k = None
   \<and> (readers s k \<longrightarrow> (\<exists>s2 t2. set_wm (call (Suc n)) k v s = Some (Ok, s2, t2)))"
proof (intro conjI impI)
  assume r: "set_wm (call n) k v s = Some (st, s', t)"
  from set_wm_steady [OF call_steady r, of k]
  show "list_all (\<lambda>y. y = (case store s k of None \<Rightarrow> Undefined | Some x \<Rightarrow> x)) (early_reads k t)"
    by (simp add: get_wm_def)
  show "early_reads k t = all_reads k t" if "\<not> touched k t"
    using that by (rule early_reads_all)
  show "store s' k = Some v" if "st = Ok"
    using r that unfolding set_wm_Some by auto
  show "fired t = map (\<lambda>w. (k, wid w, v, case store s k of None \<Rightarrow> Undefined | Some x \<Rightarrow> x))
      (watchers_of s k)" if "st = Ok"
    using r that set_wm_fired [of n k v s s' t] by (simp add: get_wm_def)
next
  assume a: "set_wm (call n) k v s = Some (st, s', t)" and b: "st \<noteq> Ok \<and> \<not> touched k t"
  from set_wm_steady [OF call_steady a, of k] b show "store s' k = store s k" by simp
next
  show "store (snd (delete_wm k s)) k = None" by (simp add: delete_wm_def Let_def)
  show "store (clear_wm s) k = None" by (simp add: clear_wm_def)
next
  assume "readers s k"
  then have "\<forall>w\<in>set (watchers_of s k). reader_fn (callback w)" by (simp add: readers_iff)
  from set_wm_readers [OF this, of n v "''''"]
  show "\<exists>s2 t2. set_wm (call (Suc n)) k v s = Some (Ok, s2, t2)" by blast
qed

theorem C3_watchers_see_old_value_witness:
  "(\<exists>s'. set_wm (call 1) ''k'' (Num 2) watched_state =
          Some (Ok, s',
            [Call ''k'' ''a'' 0 (Record (new_record (User (Fn 0 [AGet ''k''])) ''a'' None))
               (Num 2) (Num 1) [Got ''k'' (Num 1)]])
        \<and> store s' ''k'' = Some (Num 2))
   \<and> early_reads ''k''
        [Call ''k'' ''a'' 0 (Record (new_record (User (Fn 0 [AGet ''k''])) ''a'' None))
           (Num 2) (Num 1) [Got ''k'' (Num 1)]] = [Num 1]
   \<and> all_reads ''k''
        [Call ''k'' ''a'' 0 (Record (new_record (User (Fn 0 [AGet ''k''])) ''a'' None))
           (Num 2) (Num 1) [Got ''k'' (Num 1)]] = [Num 1]
   \<and> fired
        [Call ''k'' ''a'' 0 (Record (new_record (User (Fn 0 [AGet ''k''])) ''a'' None))
           (Num 2) (Num 1) [Got ''k'' (Num 1)]] = [(''k'', ''a'', Num 2, Num 1)]
   \<and> store watched_state ''k'' = Some (Num 1)
   \<and> readers watched_state ''k''
   \<and> (\<exists>s2 t2. set_wm (call 1) ''k'' (Num 2) watched_state = Some (Ok, s2, t2))
   \<and> (\<exists>s'. set_wm (call 1) ''k'' (Num 2)
          (register ''k'' (User (NotCallable (Num 5))) None ''b'' watched_state) =
          Some (Threw TypeError, s',
            [Call ''k'' ''a'' 0 (Record (new_record (User (Fn 0 [AGet ''k''])) ''a'' None))
               (Num 2) (Num 1) [Got ''k'' (Num 1)]])
        \<and> store s' ''k'' = Some (Num 1))"
proof -
  let ?t = "[Call ''k'' ''a'' 0 (Record (new_record (User (Fn 0 [AGet ''k''])) ''a'' None))
               (Num 2) (Num 1) [Got ''k'' (Num 1)]]"
  let ?d = "register ''k'' (User (NotCallable (Num 5))) None ''b'' watched_state"
  have rd: "readers watched_state ''k''"
    by (simp add: readers_def watchers_of_def watched_state_def only_reads_def)
  have g: "store watched_state ''k'' = Some (Num 1)" "store ?d ''k'' = Some (Num 1)"
    by (simp_all add: watched_state_def)
  have er: "early_reads ''k'' ?t = [Num 1]" and nt: "\<not> touched ''k'' ?t" by simp_all
  have m: "map (\<lambda>w. (''k'', wid w, Num 2,
        case store watched_state ''k'' of None \<Rightarrow> Undefined | Some x \<Rightarrow> x))
      (watchers_of watched_state ''k'') = [(''k'', ''a'', Num 2, Num 1)]"
    by (simp add: watchers_of_def watched_state_def)
  have "trace_of (set_wm (call 1) ''k'' (Num 2) watched_state) = Some (Ok, ?t)"
    by (simp add: wm_defs Let_def watched_state_def)
  then obtain s' where r: "set_wm (call 1) ''k'' (Num 2) watched_state = Some (Ok, s', ?t)"
    unfolding trace_of_Some by blast
  have "trace_of (set_wm (call 1) ''k'' (Num 2) ?d) = Some (Threw TypeError, ?t)"
    by (simp add: wm_defs Let_def watched_state_def)
  then obtain s3 where r3: "set_wm (call 1) ''k'' (Num 2) ?d = Some (Threw TypeError, s3, ?t)"
    unfolding trace_of_Some by blast
  have ne: "Threw TypeError \<noteq> Ok" by simp
  note T = C3_watchers_see_old_value [where k = "''k''" and s = watched_state and n = 1
      and v = "Num 2" and st = Ok and s' = s' and t = ?t]
  note R = C3_watchers_see_old_value [where k = "''k''" and s = watched_state and n = 0
      and v = "Num 2"]
  note E = C3_watchers_see_old_value [where k = "''k''" and s = ?d and n = 1
      and v = "Num 2" and st = "Threw TypeError" and s' = s3 and t = ?t]
  from T r nt have c1: "early_reads ''k'' ?t = all_reads ''k'' ?t"
    and c2: "store s' ''k'' = Some (Num 2)"
    and c3: "fired ?t = [(''k'', ''a'', Num 2, Num 1)]"
    unfolding m by blast+
  from c1 er have c4: "all_reads ''k'' ?t = [Num 1]" by simp
  from r c2 have c5: "\<exists>s'. set_wm (call 1) ''k'' (Num 2) watched_state = Some (Ok, s', ?t)
      \<and> store s' ''k'' = Some (Num 2)" by blast
  from R rd have c6: "\<exists>s2 t2. set_wm (call 1) ''k'' (Num 2) watched_state = Some (Ok, s2, t2)"
    unfolding One_nat_def by blast
  from E r3 ne nt have "store s3 ''k'' = store ?d ''k''" by blast
  with g have "store s3 ''k'' = Some (Num 1)" by simp
  with r3 have c7: "\<exists>s'. set_wm (call 1) ''k'' (Num 2) ?d = Some (Threw TypeError, s', ?t)
      \<and> store s' ''k'' = Some (Num 1)" by blast
  from c5 er c4 c3 g(1) rd c6 c7 show ?thesis by (intro conjI)
qed


end
